theory Spec2Isabelle
  imports Main
begin

section \<open>The saga execution coordinator (coordinator.go)\<close>

subsection \<open>Values, errors and panics\<close>

text \<open>
  A Go \<open>error\<close> value is identified by its message.  A run of the coordinator either
  returns or panics; the panic values the coordinator itself raises are
  \<^item> \<open>LogPanicln msg e\<close>: \<open>log.Panicln(msg, err)\<close>, raised by \<open>checkErr\<close>;
  \<^item> \<open>PanicErr e\<close>: \<open>panic(err)\<close>, raised by \<open>compensateStep\<close>;
  \<^item> \<open>RuntimePanic s\<close>: a panic of the Go runtime or of package \<open>reflect\<close>
    (index out of range, \<open>IsNil\<close> on a value that cannot be nil, a failed type
    assertion, \<open>Call\<close> on a value that is no function).
  A step function may panic with any of these values too.
\<close>

datatype error = Error string

datatype panic =
    LogPanicln "string list" error
  | PanicErr error
  | RuntimePanic string

text \<open>
  What package \<open>reflect\<close> shows of a value: the context, an integer, a string, the nil of
  a type that has one, or a non-nil error.
\<close>

datatype val = CtxV nat | IntV int | StrV string | NilV | ErrV error

text \<open>The type of a declared parameter: \<open>context.Context\<close> or any other type.\<close>

datatype rtype = ContextT | OtherT string

text \<open>
  An \<open>interface{}\<close> registered as a step's function or compensation: either a value
  that is no function, or a function with its declared parameter types and its body.
  The body gets the arguments and the world (everything outside the coordinator that a
  step may read or change) and returns its result values, or panics, with the new world.
  A \<open>reflect.Value.Call\<close> that rejects the arguments is a panic of the body.
\<close>

datatype 'w obj =
    NonFunc val
  | Fn "rtype list" "val list \<Rightarrow> 'w \<Rightarrow> (panic + val list) \<times> 'w"

subsection \<open>Saga, log and result\<close>

text \<open>
  Modelled from the spec: the declarations of \<open>Step\<close>, \<open>Saga\<close>, \<open>Log\<close>, the
  log type constants, \<open>Store\<close> and \<open>Result\<close> are not in coordinator.go; the fields are
  the ones coordinator.go reads and writes (section 3 of the specification names the same
  ones).  Field names that several structs share carry the struct's name.
\<close>

record 'w Step =
  Step_Name :: string
  Func :: "'w obj"
  CompensateFunc :: "'w obj"

record 'w Saga =
  Saga_Name :: string
  steps :: "'w Step list"

datatype LogType =
    LogTypeStartSaga
  | LogTypeSagaStepExec
  | LogTypeSagaAbort
  | LogTypeSagaStepCompensate
  | LogTypeSagaComplete

record Log =
  Log_ExecutionID :: string
  Log_Name :: string
  Log_Time :: nat
  Log_Type :: LogType
  StepNumber :: "nat option"
  StepName :: "string option"

text \<open>The store's \<open>AppendLog\<close>: it may change the world and returns an error or nil.\<close>

type_synonym 'w Store = "Log \<Rightarrow> 'w \<Rightarrow> error option \<times> 'w"

record Result =
  Err :: "error option"

subsection \<open>The coordinator and the machine it runs on\<close>

text \<open>
  The struct \<open>ExecutionCoordinator\<close>.  The context \<open>ctx\<close> is a number that names
  it; the context and the saga the pointer \<open>saga\<close> refers to are taken to be non-nil.
\<close>

record 'w ExecutionCoordinator =
  ExecutionID :: string
  returnedValuesFromFunc :: "val list list"
  toCompensate :: "'w obj list"
  aborted :: bool
  err :: "error option"
  ctx :: nat
  saga :: "'w Saga"
  logStore :: "'w Store"

definition NewCoordinator :: "nat \<Rightarrow> 'w Saga \<Rightarrow> 'w Store \<Rightarrow> 'w ExecutionCoordinator" where
  "NewCoordinator cx sg st =
     \<lparr>ExecutionID = [], returnedValuesFromFunc = [], toCompensate = [], aborted = False,
      err = None, ctx = cx, saga = sg, logStore = st\<rparr>"

text \<open>
  What a run does to the outside, in the order it does it: an event handed to the
  store's \<open>AppendLog\<close>, with the error the store returned, or an invocation made
  through \<open>reflect.Value.Call\<close>, with the site that made it (the action of step \<open>i\<close>
  in \<open>execStep\<close>, or the compensation of step \<open>i\<close> in \<open>compensateStep\<close>), the
  function called, the arguments and what came back.
\<close>

datatype site = Action nat | Compensation nat

datatype 'w event =
    Append Log "error option"
  | Invoke site "'w obj" "val list" "panic + val list"

text \<open>
  The machine: the coordinator object, the world, the wall clock \<open>time.Now\<close> reads, and
  the history of the run, which only records what happened.
\<close>

record 'w machine =
  coord :: "'w ExecutionCoordinator"
  world :: 'w
  timeNow :: "'w \<Rightarrow> nat"
  history :: "'w event list"

type_synonym ('w, 'a) prog = "'w machine \<Rightarrow> (panic + 'a) \<times> 'w machine"

definition ret :: "'a \<Rightarrow> ('w, 'a) prog" where
  "ret x m = (Inr x, m)"

definition raise :: "panic \<Rightarrow> ('w, 'a) prog" where
  "raise p m = (Inl p, m)"

definition andThen :: "('w, 'a) prog \<Rightarrow> ('a \<Rightarrow> ('w, 'b) prog) \<Rightarrow> ('w, 'b) prog" where
  "andThen f g m = (case f m of (Inl p, m') \<Rightarrow> (Inl p, m') | (Inr x, m') \<Rightarrow> g x m')"

definition lift :: "panic + 'a \<Rightarrow> ('w, 'a) prog" where
  "lift r m = (r, m)"

definition getC :: "('w, 'w ExecutionCoordinator) prog" where
  "getC m = (Inr (coord m), m)"

definition setC :: "('w ExecutionCoordinator \<Rightarrow> 'w ExecutionCoordinator) \<Rightarrow> ('w, unit) prog" where
  "setC f m = (Inr (), m\<lparr>coord := f (coord m)\<rparr>)"

text \<open>\<open>xs[i]\<close> on a slice: a runtime panic when the index is out of range.\<close>

definition index :: "'a list \<Rightarrow> nat \<Rightarrow> ('w, 'a) prog" where
  "index xs i = (if i < length xs then ret (xs ! i) else raise (RuntimePanic ''index out of range''))"

subsection \<open>The functions of coordinator.go\<close>

definition checkErr :: "error option \<Rightarrow> string list \<Rightarrow> panic + unit" where
  "checkErr e msg = (case e of Some er \<Rightarrow> Inl (LogPanicln msg er) | None \<Rightarrow> Inr ())"

text \<open>
  \<open>checkErr(c.logStore.AppendLog(&Log{...}))\<close>, the statement that all five append sites
  share: the event is built from the coordinator's id, the saga's name and the clock,
  handed to the store, and the store's error is checked.
\<close>

definition newLog :: "LogType \<Rightarrow> nat option \<Rightarrow> string option \<Rightarrow> 'w machine \<Rightarrow> Log" where
  "newLog ty num nm m =
     \<lparr>Log_ExecutionID = ExecutionID (coord m), Log_Name = Saga_Name (saga (coord m)),
      Log_Time = timeNow m (world m), Log_Type = ty, StepNumber = num, StepName = nm\<rparr>"

definition appendLog :: "LogType \<Rightarrow> nat option \<Rightarrow> string option \<Rightarrow> ('w, unit) prog" where
  "appendLog ty num nm m =
     (let l = newLog ty num nm m;
          (e, w') = logStore (coord m) l (world m)
      in (checkErr e [], m\<lparr>world := w', history := history m @ [Append l e]\<rparr>))"

fun addParams :: "val list \<Rightarrow> val list \<Rightarrow> val list" where
  "addParams values returned =
     (if length returned > 1 then values @ take (length returned - 1) returned else values)"

fun isReturnError :: "val list \<Rightarrow> panic + error option" where
  "isReturnError result =
     (if length result > 0 then
        (case last result of
           NilV \<Rightarrow> Inr None
         | ErrV e \<Rightarrow> Inr (Some e)
         | CtxV c \<Rightarrow> Inl (RuntimePanic ''interface conversion: not an error'')
         | IntV n \<Rightarrow> Inl (RuntimePanic ''reflect: call of reflect.Value.IsNil on int Value'')
         | StrV s \<Rightarrow> Inl (RuntimePanic ''reflect: call of reflect.Value.IsNil on string Value''))
      else Inr None)"

fun getFuncValue :: "'w obj \<Rightarrow> panic + 'w obj" where
  "getFuncValue (NonFunc v) =
     Inl (LogPanicln [] (Error ''registered object must be a func''))"
| "getFuncValue (Fn ins body) =
     (if length ins < 1 \<or> hd ins \<noteq> ContextT
      then Inl (LogPanicln [] (Error ''first argument must use context.ctx''))
      else Inr (Fn ins body))"

text \<open>\<open>v.Call(params)\<close>, recorded in the history.\<close>

fun callValue :: "site \<Rightarrow> 'w obj \<Rightarrow> val list \<Rightarrow> ('w, val list) prog" where
  "callValue st (NonFunc v) params m =
     (Inl (RuntimePanic ''reflect: call of reflect.Value.Call on non-func Value''), m)"
| "callValue st (Fn ins body) params m =
     (let (r, w') = body params (world m)
      in (r, m\<lparr>world := w', history := history m @ [Invoke st (Fn ins body) params r]\<rparr>))"

definition compensateStep :: "nat \<Rightarrow> ('w, unit) prog" where
  "compensateStep i =
     andThen getC (\<lambda>c.
     andThen (index (steps (saga c)) i) (\<lambda>st.
     andThen (appendLog LogTypeSagaStepCompensate (Some i) (Some (Step_Name st))) (\<lambda>_.
     andThen getC (\<lambda>c.
     andThen (index (returnedValuesFromFunc c) i) (\<lambda>returned.
     andThen (index (toCompensate c) i) (\<lambda>compensateFunc.
     andThen (callValue (Compensation i) compensateFunc (addParams [CtxV (ctx c)] returned)) (\<lambda>res.
     andThen (lift (isReturnError res)) (\<lambda>e.
       case e of Some er \<Rightarrow> raise (PanicErr er) | None \<Rightarrow> ret ()))))))))"

text \<open>
  The loop of \<open>abort\<close>, \<open>for i := stepsToCompensate - 1; i >= 0; i--\<close>: the argument is
  \<open>i + 1\<close>.
\<close>

fun compensateFrom :: "nat \<Rightarrow> ('w, unit) prog" where
  "compensateFrom 0 = ret ()"
| "compensateFrom (Suc i) = andThen (compensateStep i) (\<lambda>_. compensateFrom i)"

definition abort :: "('w, unit) prog" where
  "abort =
     andThen getC (\<lambda>c.
     let stepsToCompensate = length (toCompensate c) in
     andThen (appendLog LogTypeSagaAbort (Some stepsToCompensate) None) (\<lambda>_.
     andThen (setC (\<lambda>c. c\<lparr>aborted := True\<rparr>)) (\<lambda>_.
       compensateFrom stepsToCompensate)))"

definition execStep :: "nat \<Rightarrow> ('w, unit) prog" where
  "execStep i =
     andThen getC (\<lambda>c.
     if aborted c then ret ()
     else
       andThen (index (steps (saga c)) i) (\<lambda>st.
       andThen (appendLog LogTypeSagaStepExec (Some i) (Some (Step_Name st))) (\<lambda>_.
       andThen getC (\<lambda>c.
       andThen (index (steps (saga c)) i) (\<lambda>st.
       let f = Func st; compensate = CompensateFunc st; params = [CtxV (ctx c)] in
       andThen (lift (getFuncValue f)) (\<lambda>fv.
       andThen (callValue (Action i) fv params) (\<lambda>resp.
       andThen (lift (getFuncValue compensate)) (\<lambda>cv.
       andThen (setC (\<lambda>c. c\<lparr>toCompensate := toCompensate c @ [cv]\<rparr>)) (\<lambda>_.
       andThen (setC (\<lambda>c. c\<lparr>returnedValuesFromFunc := returnedValuesFromFunc c @ [resp]\<rparr>)) (\<lambda>_.
       andThen (lift (isReturnError resp)) (\<lambda>e.
         case e of
           Some er \<Rightarrow> andThen (setC (\<lambda>c. c\<lparr>err := Some er\<rparr>)) (\<lambda>_. abort)
         | None \<Rightarrow> ret ())))))))))))"

subsection \<open>What the coordinator never writes\<close>

definition static :: "'w machine \<Rightarrow> 'w Saga \<times> 'w Store \<times> nat \<times> string \<times> ('w \<Rightarrow> nat)" where
  "static m = (saga (coord m), logStore (coord m), ctx (coord m), ExecutionID (coord m), timeNow m)"

definition keeps :: "('w, 'a) prog \<Rightarrow> bool" where
  "keeps f = (\<forall>m. static (snd (f m)) = static m)"

lemma keepsD: "keeps f \<Longrightarrow> static (snd (f m)) = static m"
  by (simp add: keeps_def)

lemma static_saga: "static m' = static m \<Longrightarrow> saga (coord m') = saga (coord m)"
  by (simp add: static_def)

lemma keeps_ret: "keeps (ret x)"
  by (simp add: keeps_def ret_def)

lemma keeps_raise: "keeps (raise p)"
  by (simp add: keeps_def raise_def)

lemma keeps_lift: "keeps (lift r)"
  by (simp add: keeps_def lift_def)

lemma keeps_getC: "keeps getC"
  by (simp add: keeps_def getC_def)

lemma keeps_index: "keeps (index xs i)"
  by (simp add: index_def keeps_ret keeps_raise)

lemma keeps_setC:
  assumes "\<And>c. saga (f c) = saga c" "\<And>c. logStore (f c) = logStore c"
    "\<And>c. ctx (f c) = ctx c" "\<And>c. ExecutionID (f c) = ExecutionID c"
  shows "keeps (setC f)"
  using assms by (simp add: keeps_def setC_def static_def)

lemma keeps_appendLog: "keeps (appendLog ty num nm)"
  by (simp add: keeps_def appendLog_def static_def Let_def split: prod.split)

lemma keeps_callValue: "keeps (callValue st f params)"
  by (cases f) (simp_all add: keeps_def static_def split: prod.split)

lemma keeps_andThen:
  assumes "keeps f" "\<And>x. keeps (g x)"
  shows "keeps (andThen f g)"
  using assms by (auto simp: keeps_def andThen_def split: prod.split sum.split) (metis snd_conv)+

lemma keeps_compensateStep: "keeps (compensateStep i)"
  unfolding compensateStep_def
  by (intro keeps_andThen keeps_getC keeps_index keeps_appendLog keeps_callValue keeps_lift)
     (simp add: keeps_raise keeps_ret split: option.split)

lemma keeps_compensateFrom: "keeps (compensateFrom n)"
  by (induction n) (simp_all add: keeps_ret keeps_andThen keeps_compensateStep)

lemma keeps_abort: "keeps abort"
  unfolding abort_def Let_def
  by (intro keeps_andThen keeps_getC keeps_appendLog keeps_setC keeps_compensateFrom) simp_all

lemma keeps_execStep: "keeps (execStep i)"
proof -
  have tail: "keeps (case e of Some er \<Rightarrow> andThen (setC (\<lambda>c. c\<lparr>err := Some er\<rparr>)) (\<lambda>_. abort)
                     | None \<Rightarrow> ret ())" for e :: "error option"
    by (cases e) (auto intro!: keeps_andThen keeps_setC keeps_abort keeps_ret)
  show ?thesis
    unfolding execStep_def Let_def
    apply (rule keeps_andThen [OF keeps_getC])
    apply (simp only: if_distrib [of keeps] keeps_ret if_True split: if_split)
    apply (intro conjI impI TrueI keeps_andThen keeps_getC keeps_index keeps_appendLog
        keeps_callValue keeps_lift keeps_setC tail)
    apply simp_all
    done
qed

lemma execStep_saga: "saga (coord (snd (execStep i m))) = saga (coord m)"
  by (rule static_saga [OF keepsD [OF keeps_execStep]])

subsection \<open>Play\<close>

text \<open>
  The loop of \<open>Play\<close>, \<open>for i := 0; i < len(c.saga.steps); i++\<close>, from \<open>i\<close> on.  The bound
  is read from the coordinator at every iteration, as the source does; the loop ends
  because \<open>execStep\<close> leaves the saga as it is.
\<close>

function playFrom :: "nat \<Rightarrow> ('w, unit) prog" where
  "playFrom i m =
     (if i < length (steps (saga (coord m))) then
        (case execStep i m of
           (Inl p, m') \<Rightarrow> (Inl p, m')
         | (Inr u, m') \<Rightarrow> playFrom (i + 1) m')
      else (Inr (), m))"
  by pat_completeness auto
termination
proof (relation "measure (\<lambda>(i, m). length (steps (saga (coord m))) - i)", goal_cases)
  case 1
  show ?case by simp
next
  case (2 i m x m' u)
  have "saga (coord m') = saga (coord m)"
    using execStep_saga [of i m] 2(2) by (metis snd_conv)
  with 2(1) show ?case by simp
qed

definition Play :: "('w, Result) prog" where
  "Play =
     andThen (appendLog LogTypeStartSaga None None) (\<lambda>_.
     andThen (playFrom 0) (\<lambda>_.
     andThen (appendLog LogTypeSagaComplete None None) (\<lambda>_.
     andThen getC (\<lambda>c.
       ret \<lparr>Err = err c\<rparr>))))"

text \<open>
  The machine a run starts from: a coordinator just made by \<open>NewCoordinator\<close>, whose
  exported \<open>ExecutionID\<close> the caller has set, an empty history, and some world and clock.
\<close>

definition start :: "nat \<Rightarrow> 'w Saga \<Rightarrow> 'w Store \<Rightarrow> string \<Rightarrow> 'w \<Rightarrow> ('w \<Rightarrow> nat) \<Rightarrow> 'w machine" where
  "start cx sg st eid w clk =
     \<lparr>coord = (NewCoordinator cx sg st)\<lparr>ExecutionID := eid\<rparr>, world = w, timeNow = clk,
      history = []\<rparr>"

declare playFrom.simps [simp del]

lemma keeps_playFrom: "keeps (playFrom i :: ('w, unit) prog)"
proof -
  have "static (snd (playFrom i m)) = static m" for m :: "'w machine"
  proof (induction i m rule: playFrom.induct)
    case (1 i m)
    show ?case
    proof (cases "i < length (steps (saga (coord m)))")
      case False
      then show ?thesis by (simp add: playFrom.simps [of i m])
    next
      case True
      obtain r m' where e: "execStep i m = (r, m')" by (cases "execStep i m")
      have k: "static m' = static m"
        using keepsD [OF keeps_execStep, of i m] e by simp
      show ?thesis
      proof (cases r)
        case (Inl p)
        with True e k show ?thesis by (simp add: playFrom.simps [of i m])
      next
        case (Inr u)
        with True e have "playFrom i m = playFrom (i + 1) m'"
          by (simp add: playFrom.simps [of i m])
        moreover have "static (snd (playFrom (i + 1) m')) = static m'"
          using "1.IH" [OF True e [symmetric] Inr] .
        ultimately show ?thesis using k by simp
      qed
    qed
  qed
  then show ?thesis by (simp add: keeps_def)
qed

lemma keeps_Play: "keeps Play"
  unfolding Play_def
  by (intro keeps_andThen keeps_appendLog keeps_playFrom keeps_getC keeps_ret)

subsection \<open>Reading a history\<close>

text \<open>
  \<open>logsOf\<close>: the events handed to the store, in order, each with its type, step number
  and step name.  \<open>callsOf\<close>: the invocations, in order, each with its site, the function
  called and the arguments.  \<open>resultsOf\<close>: what the invoked actions gave back, in order.
\<close>

fun logsOf :: "'w event list \<Rightarrow> (LogType \<times> nat option \<times> string option) list" where
  "logsOf [] = []"
| "logsOf (Append l e # h) = (Log_Type l, StepNumber l, StepName l) # logsOf h"
| "logsOf (Invoke s f a r # h) = logsOf h"

fun callsOf :: "'w event list \<Rightarrow> (site \<times> 'w obj \<times> val list) list" where
  "callsOf [] = []"
| "callsOf (Append l e # h) = callsOf h"
| "callsOf (Invoke s f a r # h) = (s, f, a) # callsOf h"

lemma logsOf_append: "logsOf (h @ h') = logsOf h @ logsOf h'"
  by (induction h rule: logsOf.induct) simp_all

lemma callsOf_append: "callsOf (h @ h') = callsOf h @ callsOf h'"
  by (induction h rule: callsOf.induct) simp_all

fun resultsOf :: "'w event list \<Rightarrow> (panic + val list) list" where
  "resultsOf [] = []"
| "resultsOf (Append l e # h) = resultsOf h"
| "resultsOf (Invoke (Action i) f a r # h) = r # resultsOf h"
| "resultsOf (Invoke (Compensation i) f a r # h) = resultsOf h"

lemma resultsOf_append: "resultsOf (h @ h') = resultsOf h @ resultsOf h'"
  by (induction h rule: resultsOf.induct) simp_all

subsection \<open>Conditions on the store and on the steps\<close>

text \<open>
  \<open>storeOK\<close>: the store returns a nil error for every event, in every world.
  \<open>wellFormed\<close>: \<open>getFuncValue\<close> accepts the object.
  \<open>returnsWhere f params P\<close>: \<open>f\<close> is a function that, called with \<open>params\<close>, in every
  world returns (does not panic) values that satisfy \<open>P\<close>.
  \<open>returnsErr f params e\<close>: the trailing error of the values it returns, as
  \<open>isReturnError\<close> reads it, is \<open>e\<close> (\<open>None\<close> is nil).
  \<open>undoes cx s\<close>: whatever values \<open>r\<close> the action of the step returns when it is
  called with the context alone, the compensation of the step, called with the context
  followed by \<open>r\<close> without its last value (the arguments \<open>compensateStep\<close> passes),
  returns a nil error.  Nothing is asked of the compensation at other arguments, where a
  function may well panic, as one does that is called with the wrong number of arguments.
  \<open>stepOK\<close>: both objects of the step are well formed and the action, called with the
  context alone, returns a nil error.  \<open>stepFails\<close>: the same, with the error \<open>e\<close>.
\<close>

definition storeOK :: "'w Store \<Rightarrow> bool" where
  "storeOK st = (\<forall>l w. fst (st l w) = None)"

definition wellFormed :: "'w obj \<Rightarrow> bool" where
  "wellFormed f = (case getFuncValue f of Inl p \<Rightarrow> False | Inr v \<Rightarrow> True)"

definition returnsWhere :: "'w obj \<Rightarrow> val list \<Rightarrow> (val list \<Rightarrow> bool) \<Rightarrow> bool" where
  "returnsWhere f params P =
     (case f of
        NonFunc v \<Rightarrow> False
      | Fn ins body \<Rightarrow>
          (\<forall>w. case fst (body params w) of Inl p \<Rightarrow> False | Inr r \<Rightarrow> P r))"

definition returnsErr :: "'w obj \<Rightarrow> val list \<Rightarrow> error option \<Rightarrow> bool" where
  "returnsErr f params e = returnsWhere f params (\<lambda>r. isReturnError r = Inr e)"

definition undoes :: "nat \<Rightarrow> 'w Step \<Rightarrow> bool" where
  "undoes cx s =
     returnsWhere (Func s) [CtxV cx]
       (\<lambda>r. returnsErr (CompensateFunc s) (CtxV cx # butlast r) None)"

definition stepOK :: "nat \<Rightarrow> 'w Step \<Rightarrow> bool" where
  "stepOK cx s =
     (wellFormed (Func s) \<and> wellFormed (CompensateFunc s) \<and> returnsErr (Func s) [CtxV cx] None)"

definition stepFails :: "nat \<Rightarrow> 'w Step \<Rightarrow> error \<Rightarrow> bool" where
  "stepFails cx s e =
     (wellFormed (Func s) \<and> wellFormed (CompensateFunc s) \<and> returnsErr (Func s) [CtxV cx] (Some e))"

subsection \<open>Stepping through a program\<close>

lemma andThen_Inr: "fst (f m) = Inr x \<Longrightarrow> andThen f g m = g x (snd (f m))"
  by (cases "f m") (simp add: andThen_def)

lemma andThen_Inl: "fst (f m) = Inl p \<Longrightarrow> andThen f g m = (Inl p, snd (f m))"
  by (cases "f m") (simp add: andThen_def)

lemma andThen_getC: "andThen getC g m = g (coord m) m"
  by (simp add: andThen_def getC_def)

lemma andThen_setC: "andThen (setC f) g m = g () (m\<lparr>coord := f (coord m)\<rparr>)"
  by (simp add: andThen_def setC_def)

lemma andThen_index: "i < length xs \<Longrightarrow> andThen (index xs i) g m = g (xs ! i) m"
  by (simp add: andThen_def index_def ret_def)

lemma andThen_lift_Inr: "andThen (lift (Inr x)) g m = g x m"
  by (simp add: andThen_def lift_def)

lemma andThen_lift_Inl: "andThen (lift (Inl p)) g m = (Inl p, m)"
  by (simp add: andThen_def lift_def)

lemma appendLog_eq:
  "appendLog ty num nm m =
     (checkErr (fst (logStore (coord m) (newLog ty num nm m) (world m))) [],
      m\<lparr>world := snd (logStore (coord m) (newLog ty num nm m) (world m)),
        history := history m @ [Append (newLog ty num nm m)
                     (fst (logStore (coord m) (newLog ty num nm m) (world m)))]\<rparr>)"
  by (simp add: appendLog_def Let_def case_prod_beta)

lemma appendLog_ok:
  assumes "storeOK (logStore (coord m))"
  shows "appendLog ty num nm m =
           (Inr (), m\<lparr>world := snd (logStore (coord m) (newLog ty num nm m) (world m)),
                       history := history m @ [Append (newLog ty num nm m) None]\<rparr>)"
proof -
  have "fst (logStore (coord m) (newLog ty num nm m) (world m)) = None"
    using assms by (simp add: storeOK_def)
  then show ?thesis by (simp add: appendLog_eq checkErr_def)
qed

lemma appendLog_fault:
  assumes "fst (logStore (coord m) (newLog ty num nm m) (world m)) = Some e"
  shows "appendLog ty num nm m =
           (Inl (LogPanicln [] e), m\<lparr>world := snd (logStore (coord m) (newLog ty num nm m) (world m)),
                       history := history m @ [Append (newLog ty num nm m) (Some e)]\<rparr>)"
  using assms by (simp add: appendLog_eq checkErr_def)

lemma callValue_returns:
  assumes "returnsWhere f params P"
  shows "\<exists>r w'. P r \<and>
           callValue st f params m =
             (Inr r, m\<lparr>world := w', history := history m @ [Invoke st f params (Inr r)]\<rparr>)"
proof (cases f)
  case (NonFunc v)
  with assms show ?thesis by (simp add: returnsWhere_def)
next
  case (Fn ins body)
  with assms have a: "case fst (body params (world m)) of Inl p \<Rightarrow> False | Inr r \<Rightarrow> P r"
    by (simp add: returnsWhere_def)
  then obtain r where r: "fst (body params (world m)) = Inr r" "P r"
    by (cases "fst (body params (world m))") auto
  then have "callValue st f params m =
             (Inr r, m\<lparr>world := snd (body params (world m)),
                        history := history m @ [Invoke st f params (Inr r)]\<rparr>)"
    using Fn by (cases "body params (world m)") simp
  with r show ?thesis by blast
qed

lemma wellFormed_getFuncValue: "wellFormed f \<Longrightarrow> getFuncValue f = Inr f"
  by (cases f) (auto simp: wellFormed_def split: if_splits)

lemma addParams_butlast: "addParams [v] returned = v # butlast returned"
  by (cases returned rule: rev_cases) (simp_all add: butlast_conv_take)

lemma compensateStep_ok:
  assumes st: "storeOK (logStore (coord m))"
    and i: "i < length (steps (saga (coord m)))" "i < length (returnedValuesFromFunc (coord m))"
      "i < length (toCompensate (coord m))"
    and f: "returnsErr (toCompensate (coord m) ! i)
              (CtxV (ctx (coord m)) # butlast (returnedValuesFromFunc (coord m) ! i)) None"
  shows "\<exists>w' l out. compensateStep i m =
           (Inr (), m\<lparr>world := w', history := history m @
              [Append l None,
               Invoke (Compensation i) (toCompensate (coord m) ! i)
                 (CtxV (ctx (coord m)) # butlast (returnedValuesFromFunc (coord m) ! i)) (Inr out)]\<rparr>)
         \<and> (Log_Type l, StepNumber l, StepName l) =
             (LogTypeSagaStepCompensate, Some i, Some (Step_Name (steps (saga (coord m)) ! i)))"
proof -
  let ?c = "coord m"
  let ?nm = "Some (Step_Name (steps (saga ?c) ! i))"
  let ?l = "newLog LogTypeSagaStepCompensate (Some i) ?nm m"
  let ?m1 = "m\<lparr>world := snd (logStore ?c ?l (world m)), history := history m @ [Append ?l None]\<rparr>"
  let ?params = "CtxV (ctx ?c) # butlast (returnedValuesFromFunc ?c ! i)"
  have a: "appendLog LogTypeSagaStepCompensate (Some i) ?nm m = (Inr (), ?m1)"
    by (rule appendLog_ok [OF st])
  from f have "returnsWhere (toCompensate ?c ! i) ?params (\<lambda>r. isReturnError r = Inr None)"
    by (simp add: returnsErr_def)
  from callValue_returns [OF this, of "Compensation i" ?m1]
  obtain r w' where r: "isReturnError r = Inr None"
    and c: "callValue (Compensation i) (toCompensate ?c ! i) ?params ?m1 =
             (Inr r, ?m1\<lparr>world := w',
                        history := history ?m1 @ [Invoke (Compensation i) (toCompensate ?c ! i) ?params (Inr r)]\<rparr>)"
    by blast
  have "compensateStep i m =
          (Inr (), m\<lparr>world := w', history := history m @
              [Append ?l None, Invoke (Compensation i) (toCompensate ?c ! i) ?params (Inr r)]\<rparr>)"
    unfolding compensateStep_def
    using i a c r
    by (simp add: andThen_def getC_def index_def ret_def lift_def addParams_butlast del: addParams.simps isReturnError.simps)
  moreover have "(Log_Type ?l, StepNumber ?l, StepName ?l) =
             (LogTypeSagaStepCompensate, Some i, ?nm)"
    by (simp add: newLog_def)
  ultimately show ?thesis by blast
qed

lemma compensateFrom_ok:
  assumes st: "storeOK (logStore (coord m))"
    and n: "n \<le> length (steps (saga (coord m)))" "n \<le> length (returnedValuesFromFunc (coord m))"
      "n \<le> length (toCompensate (coord m))"
    and f: "\<forall>j<n. returnsErr (toCompensate (coord m) ! j)
              (CtxV (ctx (coord m)) # butlast (returnedValuesFromFunc (coord m) ! j)) None"
  shows "\<exists>w' new. compensateFrom n m = (Inr (), m\<lparr>world := w', history := history m @ new\<rparr>)
         \<and> logsOf new = map (\<lambda>j. (LogTypeSagaStepCompensate, Some j,
                                  Some (Step_Name (steps (saga (coord m)) ! j)))) (rev [0..<n])
         \<and> callsOf new = map (\<lambda>j. (Compensation j, toCompensate (coord m) ! j,
                   CtxV (ctx (coord m)) # butlast (returnedValuesFromFunc (coord m) ! j))) (rev [0..<n])
         \<and> resultsOf new = []"
  using assms
proof (induction n arbitrary: m)
  case 0
  have "compensateFrom 0 m = (Inr (), m\<lparr>world := world m, history := history m @ []\<rparr>)"
    by (simp add: ret_def)
  then show ?case by (intro exI [of _ "world m"] exI [of _ "[]"]) simp
next
  case (Suc n)
  from compensateStep_ok [of m n] Suc.prems
  obtain w1 l out where s: "compensateStep n m =
           (Inr (), m\<lparr>world := w1, history := history m @
              [Append l None,
               Invoke (Compensation n) (toCompensate (coord m) ! n)
                 (CtxV (ctx (coord m)) # butlast (returnedValuesFromFunc (coord m) ! n)) (Inr out)]\<rparr>)"
    and l: "(Log_Type l, StepNumber l, StepName l) =
             (LogTypeSagaStepCompensate, Some n, Some (Step_Name (steps (saga (coord m)) ! n)))"
    by (metis Suc_le_lessD lessI)
  let ?ev = "[Append l None,
               Invoke (Compensation n) (toCompensate (coord m) ! n)
                 (CtxV (ctx (coord m)) # butlast (returnedValuesFromFunc (coord m) ! n)) (Inr out)]"
  let ?m1 = "m\<lparr>world := w1, history := history m @ ?ev\<rparr>"
  have "\<exists>w' new. compensateFrom n ?m1 = (Inr (), ?m1\<lparr>world := w', history := history ?m1 @ new\<rparr>)
         \<and> logsOf new = map (\<lambda>j. (LogTypeSagaStepCompensate, Some j,
                                  Some (Step_Name (steps (saga (coord ?m1)) ! j)))) (rev [0..<n])
         \<and> callsOf new = map (\<lambda>j. (Compensation j, toCompensate (coord ?m1) ! j,
                   CtxV (ctx (coord ?m1)) # butlast (returnedValuesFromFunc (coord ?m1) ! j))) (rev [0..<n])
         \<and> resultsOf new = []"
    using Suc.prems by (intro Suc.IH) simp_all
  then obtain w2 new where c: "compensateFrom n ?m1 = (Inr (), ?m1\<lparr>world := w2, history := history ?m1 @ new\<rparr>)"
    and p: "logsOf new = map (\<lambda>j. (LogTypeSagaStepCompensate, Some j,
                                  Some (Step_Name (steps (saga (coord m)) ! j)))) (rev [0..<n])"
      "callsOf new = map (\<lambda>j. (Compensation j, toCompensate (coord m) ! j,
                   CtxV (ctx (coord m)) # butlast (returnedValuesFromFunc (coord m) ! j))) (rev [0..<n])"
      "resultsOf new = []"
    by auto
  have "compensateFrom (Suc n) m = (Inr (), m\<lparr>world := w2, history := history m @ (?ev @ new)\<rparr>)"
    using s c by (simp add: andThen_def)
  moreover have "logsOf (?ev @ new) = map (\<lambda>j. (LogTypeSagaStepCompensate, Some j,
                                  Some (Step_Name (steps (saga (coord m)) ! j)))) (rev [0..<Suc n])"
    using l p by simp
  moreover have "callsOf (?ev @ new) = map (\<lambda>j. (Compensation j, toCompensate (coord m) ! j,
                   CtxV (ctx (coord m)) # butlast (returnedValuesFromFunc (coord m) ! j))) (rev [0..<Suc n])"
    using p by simp
  moreover have "resultsOf (?ev @ new) = []"
    using p by simp
  ultimately show ?case by blast
qed

lemma abort_ok:
  assumes st: "storeOK (logStore (coord m))"
    and n: "length (toCompensate (coord m)) \<le> length (steps (saga (coord m)))"
      "length (toCompensate (coord m)) \<le> length (returnedValuesFromFunc (coord m))"
    and f: "\<forall>j<length (toCompensate (coord m)). returnsErr (toCompensate (coord m) ! j)
              (CtxV (ctx (coord m)) # butlast (returnedValuesFromFunc (coord m) ! j)) None"
  shows "\<exists>w' new. abort m =
           (Inr (), m\<lparr>coord := (coord m)\<lparr>aborted := True\<rparr>, world := w', history := history m @ new\<rparr>)
         \<and> logsOf new = (LogTypeSagaAbort, Some (length (toCompensate (coord m))), None) #
               map (\<lambda>j. (LogTypeSagaStepCompensate, Some j,
                     Some (Step_Name (steps (saga (coord m)) ! j)))) (rev [0..<length (toCompensate (coord m))])
         \<and> callsOf new = map (\<lambda>j. (Compensation j, toCompensate (coord m) ! j,
                   CtxV (ctx (coord m)) # butlast (returnedValuesFromFunc (coord m) ! j)))
                 (rev [0..<length (toCompensate (coord m))])
         \<and> resultsOf new = []"
proof -
  let ?n = "length (toCompensate (coord m))"
  let ?l = "newLog LogTypeSagaAbort (Some ?n) None m"
  let ?m1 = "m\<lparr>world := snd (logStore (coord m) ?l (world m)), history := history m @ [Append ?l None]\<rparr>"
  let ?m2 = "?m1\<lparr>coord := (coord m)\<lparr>aborted := True\<rparr>\<rparr>"
  have a: "appendLog LogTypeSagaAbort (Some ?n) None m = (Inr (), ?m1)"
    by (rule appendLog_ok [OF st])
  have "\<exists>w' new. compensateFrom ?n ?m2 = (Inr (), ?m2\<lparr>world := w', history := history ?m2 @ new\<rparr>)
         \<and> logsOf new = map (\<lambda>j. (LogTypeSagaStepCompensate, Some j,
                                  Some (Step_Name (steps (saga (coord ?m2)) ! j)))) (rev [0..<?n])
         \<and> callsOf new = map (\<lambda>j. (Compensation j, toCompensate (coord ?m2) ! j,
                   CtxV (ctx (coord ?m2)) # butlast (returnedValuesFromFunc (coord ?m2) ! j))) (rev [0..<?n])
         \<and> resultsOf new = []"
    using assms by (intro compensateFrom_ok) simp_all
  then obtain w2 new where c: "compensateFrom ?n ?m2 = (Inr (), ?m2\<lparr>world := w2, history := history ?m2 @ new\<rparr>)"
    and p: "logsOf new = map (\<lambda>j. (LogTypeSagaStepCompensate, Some j,
                                  Some (Step_Name (steps (saga (coord m)) ! j)))) (rev [0..<?n])"
      "callsOf new = map (\<lambda>j. (Compensation j, toCompensate (coord m) ! j,
                   CtxV (ctx (coord m)) # butlast (returnedValuesFromFunc (coord m) ! j))) (rev [0..<?n])"
      "resultsOf new = []"
    by auto
  have "abort m = (Inr (), m\<lparr>coord := (coord m)\<lparr>aborted := True\<rparr>, world := w2,
                     history := history m @ (Append ?l None # new)\<rparr>)"
    unfolding abort_def using a c by (simp add: andThen_def getC_def setC_def Let_def)
  moreover have "logsOf (Append ?l None # new) = (LogTypeSagaAbort, Some ?n, None) #
               map (\<lambda>j. (LogTypeSagaStepCompensate, Some j,
                     Some (Step_Name (steps (saga (coord m)) ! j)))) (rev [0..<?n])"
    using p by (simp add: newLog_def)
  moreover have "callsOf (Append ?l None # new) = map (\<lambda>j. (Compensation j, toCompensate (coord m) ! j,
                   CtxV (ctx (coord m)) # butlast (returnedValuesFromFunc (coord m) ! j))) (rev [0..<?n])"
    using p by simp
  moreover have "resultsOf (Append ?l None # new) = []"
    using p by simp
  ultimately show ?thesis by blast
qed

subsection \<open>The states of a run\<close>

text \<open>
  \<open>stepLogs ty sg js\<close>: the events of type \<open>ty\<close> for the steps \<open>js\<close> of the saga, each with
  the number and the name of its step.  \<open>actionCalls cx sg n\<close>: the invocations of the actions
  of steps \<open>0..n-1\<close>, each with the context alone.  \<open>compensationCalls cx sg rs n\<close>: the
  invocations of the compensations of steps \<open>n-1..0\<close>, each with the context followed by
  \<open>rs ! j\<close> without its last value.

  \<open>forward sg cx n m\<close>: the machine after \<open>n\<close> steps that all succeeded.
  \<open>compensated sg cx n e m\<close>: the machine after the \<open>n\<close>-th step failed with \<open>e\<close> and all
  \<open>n\<close> steps were compensated.
\<close>

definition stepLogs :: "LogType \<Rightarrow> 'w Saga \<Rightarrow> nat list \<Rightarrow> (LogType \<times> nat option \<times> string option) list" where
  "stepLogs ty sg js = map (\<lambda>j. (ty, Some j, Some (Step_Name (steps sg ! j)))) js"

definition actionCalls :: "nat \<Rightarrow> 'w Saga \<Rightarrow> nat \<Rightarrow> (site \<times> 'w obj \<times> val list) list" where
  "actionCalls cx sg n = map (\<lambda>j. (Action j, Func (steps sg ! j), [CtxV cx])) [0..<n]"

definition compensationCalls :: "nat \<Rightarrow> 'w Saga \<Rightarrow> val list list \<Rightarrow> nat \<Rightarrow> (site \<times> 'w obj \<times> val list) list" where
  "compensationCalls cx sg rs n =
     map (\<lambda>j. (Compensation j, CompensateFunc (steps sg ! j), CtxV cx # butlast (rs ! j))) (rev [0..<n])"

definition forward :: "'w Saga \<Rightarrow> nat \<Rightarrow> nat \<Rightarrow> 'w machine \<Rightarrow> bool" where
  "forward sg cx n m =
     (\<not> aborted (coord m) \<and> err (coord m) = None \<and>
      length (returnedValuesFromFunc (coord m)) = n \<and>
      toCompensate (coord m) = map (\<lambda>j. CompensateFunc (steps sg ! j)) [0..<n] \<and>
      logsOf (history m) = (LogTypeStartSaga, None, None) # stepLogs LogTypeSagaStepExec sg [0..<n] \<and>
      callsOf (history m) = actionCalls cx sg n \<and>
      resultsOf (history m) = map Inr (returnedValuesFromFunc (coord m)))"

definition compensated :: "'w Saga \<Rightarrow> nat \<Rightarrow> nat \<Rightarrow> error \<Rightarrow> 'w machine \<Rightarrow> bool" where
  "compensated sg cx n e m =
     (aborted (coord m) \<and> err (coord m) = Some e \<and>
      length (returnedValuesFromFunc (coord m)) = n \<and>
      logsOf (history m) =
        (LogTypeStartSaga, None, None) # stepLogs LogTypeSagaStepExec sg [0..<n] @
        (LogTypeSagaAbort, Some n, None) # stepLogs LogTypeSagaStepCompensate sg (rev [0..<n]) \<and>
      callsOf (history m) =
        actionCalls cx sg n @ compensationCalls cx sg (returnedValuesFromFunc (coord m)) n \<and>
      resultsOf (history m) = map Inr (returnedValuesFromFunc (coord m)))"

lemma staticD:
  assumes "static m = (sg, st, cx, eid, clk)"
  shows "saga (coord m) = sg" "logStore (coord m) = st" "ctx (coord m) = cx"
    "ExecutionID (coord m) = eid" "timeNow m = clk"
  using assms by (simp_all add: static_def)

lemma execStep_ok:
  assumes s: "static m = (sg, st, cx, eid, clk)"
    and fw: "forward sg cx n m"
    and st: "storeOK st"
    and n: "n < length (steps sg)"
    and ok: "stepOK cx (steps sg ! n)"
  shows "fst (execStep n m) = Inr () \<and> forward sg cx (Suc n) (snd (execStep n m))"
proof -
  note sd = staticD [OF s]
  let ?s = "steps sg ! n"
  let ?l = "newLog LogTypeSagaStepExec (Some n) (Some (Step_Name ?s)) m"
  let ?m1 = "m\<lparr>world := snd (st ?l (world m)), history := history m @ [Append ?l None]\<rparr>"
  have a: "appendLog LogTypeSagaStepExec (Some n) (Some (Step_Name ?s)) m = (Inr (), ?m1)"
    using appendLog_ok [of m] st sd by simp
  from ok have wf: "getFuncValue (Func ?s) = Inr (Func ?s)"
      "getFuncValue (CompensateFunc ?s) = Inr (CompensateFunc ?s)"
    and re: "returnsWhere (Func ?s) [CtxV cx] (\<lambda>r. isReturnError r = Inr None)"
    by (simp_all add: stepOK_def wellFormed_getFuncValue returnsErr_def)
  from callValue_returns [OF re, of "Action n" ?m1]
  obtain r w' where r: "isReturnError r = Inr None"
    and c: "callValue (Action n) (Func ?s) [CtxV cx] ?m1 =
             (Inr r, ?m1\<lparr>world := w',
                        history := history ?m1 @ [Invoke (Action n) (Func ?s) [CtxV cx] (Inr r)]\<rparr>)"
    by blast
  let ?m' = "m\<lparr>coord := (coord m)\<lparr>toCompensate := toCompensate (coord m) @ [CompensateFunc ?s],
                  returnedValuesFromFunc := returnedValuesFromFunc (coord m) @ [r]\<rparr>,
               world := w',
               history := history m @ [Append ?l None, Invoke (Action n) (Func ?s) [CtxV cx] (Inr r)]\<rparr>"
  have e: "execStep n m = (Inr (), ?m')"
    unfolding execStep_def
    using fw n sd a c r wf
    by (simp add: forward_def andThen_def getC_def setC_def index_def ret_def lift_def Let_def
        del: isReturnError.simps getFuncValue.simps)
  have "forward sg cx (Suc n) ?m'"
    using fw by (simp add: forward_def logsOf_append callsOf_append resultsOf_append newLog_def
        stepLogs_def actionCalls_def)
  with e show ?thesis by simp
qed

text \<open>
  \<open>undone sg cx n m\<close>: the compensation of each of the first \<open>n\<close> steps returns a nil
  error at the arguments it would get from the values recorded for its step.
\<close>

definition undone :: "'w Saga \<Rightarrow> nat \<Rightarrow> nat \<Rightarrow> 'w machine \<Rightarrow> bool" where
  "undone sg cx n m =
     (\<forall>j<n. returnsErr (CompensateFunc (steps sg ! j))
              (CtxV cx # butlast (returnedValuesFromFunc (coord m) ! j)) None)"

lemma returnsWhere_conj:
  "returnsWhere f params P \<Longrightarrow> returnsWhere f params Q \<Longrightarrow>
     returnsWhere f params (\<lambda>r. P r \<and> Q r)"
  by (cases f) (auto simp: returnsWhere_def split: sum.splits)

lemma execStep_ok_undone:
  assumes s: "static m = (sg, st, cx, eid, clk)"
    and fw: "forward sg cx n m"
    and st: "storeOK st"
    and n: "n < length (steps sg)"
    and ok: "stepOK cx (steps sg ! n)"
    and und: "undone sg cx n m"
    and u: "undoes cx (steps sg ! n)"
  shows "fst (execStep n m) = Inr () \<and> forward sg cx (Suc n) (snd (execStep n m)) \<and>
         undone sg cx (Suc n) (snd (execStep n m))"
proof -
  note sd = staticD [OF s]
  let ?s = "steps sg ! n"
  let ?l = "newLog LogTypeSagaStepExec (Some n) (Some (Step_Name ?s)) m"
  let ?m1 = "m\<lparr>world := snd (st ?l (world m)), history := history m @ [Append ?l None]\<rparr>"
  have a: "appendLog LogTypeSagaStepExec (Some n) (Some (Step_Name ?s)) m = (Inr (), ?m1)"
    using appendLog_ok [of m] st sd by simp
  from ok have wf: "getFuncValue (Func ?s) = Inr (Func ?s)"
      "getFuncValue (CompensateFunc ?s) = Inr (CompensateFunc ?s)"
    and re0: "returnsWhere (Func ?s) [CtxV cx] (\<lambda>r. isReturnError r = Inr None)"
    by (simp_all add: stepOK_def wellFormed_getFuncValue returnsErr_def)
  from returnsWhere_conj [OF re0 u [unfolded undoes_def]]
  have re: "returnsWhere (Func ?s) [CtxV cx]
      (\<lambda>r. isReturnError r = Inr None \<and>
           returnsErr (CompensateFunc ?s) (CtxV cx # butlast r) None)" .
  from callValue_returns [OF re, of "Action n" ?m1]
  obtain r w' where r: "isReturnError r = Inr None"
    and ur: "returnsErr (CompensateFunc ?s) (CtxV cx # butlast r) None"
    and c: "callValue (Action n) (Func ?s) [CtxV cx] ?m1 =
             (Inr r, ?m1\<lparr>world := w',
                        history := history ?m1 @ [Invoke (Action n) (Func ?s) [CtxV cx] (Inr r)]\<rparr>)"
    by blast
  let ?m' = "m\<lparr>coord := (coord m)\<lparr>toCompensate := toCompensate (coord m) @ [CompensateFunc ?s],
                  returnedValuesFromFunc := returnedValuesFromFunc (coord m) @ [r]\<rparr>,
               world := w',
               history := history m @ [Append ?l None, Invoke (Action n) (Func ?s) [CtxV cx] (Inr r)]\<rparr>"
  have e: "execStep n m = (Inr (), ?m')"
    unfolding execStep_def
    using fw n sd a c r wf
    by (simp add: forward_def andThen_def getC_def setC_def index_def ret_def lift_def Let_def
        del: isReturnError.simps getFuncValue.simps)
  have "forward sg cx (Suc n) ?m'"
    using fw by (simp add: forward_def logsOf_append callsOf_append resultsOf_append newLog_def
        stepLogs_def actionCalls_def)
  moreover have "undone sg cx (Suc n) ?m'"
  proof -
    have len: "length (returnedValuesFromFunc (coord m)) = n"
      using fw by (simp add: forward_def)
    have "returnsErr (CompensateFunc (steps sg ! j))
            (CtxV cx # butlast ((returnedValuesFromFunc (coord m) @ [r]) ! j)) None"
      if "j < Suc n" for j
    proof (cases "j = n")
      case True
      with ur len show ?thesis by (simp add: nth_append)
    next
      case False
      with that have "j < n" by simp
      with und len show ?thesis by (simp add: undone_def nth_append)
    qed
    then show ?thesis by (simp add: undone_def)
  qed
  ultimately show ?thesis using e by simp
qed

lemma nth_map_upt_snoc: "j \<le> n \<Longrightarrow> (map f [0..<n] @ [f n]) ! j = f j"
  by (cases "j = n") (simp_all add: nth_append)

lemma execStep_fails:
  assumes s: "static m = (sg, st, cx, eid, clk)"
    and fw: "forward sg cx n m"
    and st: "storeOK st"
    and n: "n < length (steps sg)"
    and fails: "stepFails cx (steps sg ! n) e"
    and und: "undone sg cx n m"
    and u: "undoes cx (steps sg ! n)"
  shows "fst (execStep n m) = Inr () \<and> compensated sg cx (Suc n) e (snd (execStep n m))"
proof -
  note sd = staticD [OF s]
  let ?s = "steps sg ! n"
  let ?l = "newLog LogTypeSagaStepExec (Some n) (Some (Step_Name ?s)) m"
  let ?m1 = "m\<lparr>world := snd (st ?l (world m)), history := history m @ [Append ?l None]\<rparr>"
  have a: "appendLog LogTypeSagaStepExec (Some n) (Some (Step_Name ?s)) m = (Inr (), ?m1)"
    using appendLog_ok [of m] st sd by simp
  from fails have wf: "getFuncValue (Func ?s) = Inr (Func ?s)"
      "getFuncValue (CompensateFunc ?s) = Inr (CompensateFunc ?s)"
    and re0: "returnsWhere (Func ?s) [CtxV cx] (\<lambda>r. isReturnError r = Inr (Some e))"
    by (simp_all add: stepFails_def wellFormed_getFuncValue returnsErr_def)
  from returnsWhere_conj [OF re0 u [unfolded undoes_def]]
  have re: "returnsWhere (Func ?s) [CtxV cx]
      (\<lambda>r. isReturnError r = Inr (Some e) \<and>
           returnsErr (CompensateFunc ?s) (CtxV cx # butlast r) None)" .
  from callValue_returns [OF re, of "Action n" ?m1]
  obtain r w' where r: "isReturnError r = Inr (Some e)"
    and ur: "returnsErr (CompensateFunc ?s) (CtxV cx # butlast r) None"
    and c: "callValue (Action n) (Func ?s) [CtxV cx] ?m1 =
             (Inr r, ?m1\<lparr>world := w',
                        history := history ?m1 @ [Invoke (Action n) (Func ?s) [CtxV cx] (Inr r)]\<rparr>)"
    by blast
  let ?tc = "map (\<lambda>j. CompensateFunc (steps sg ! j)) [0..<n] @ [CompensateFunc ?s]"
  let ?rv = "returnedValuesFromFunc (coord m) @ [r]"
  let ?c3 = "(coord m)\<lparr>toCompensate := ?tc, returnedValuesFromFunc := ?rv, err := Some e\<rparr>"
  let ?h3 = "history m @ [Append ?l None, Invoke (Action n) (Func ?s) [CtxV cx] (Inr r)]"
  let ?m3 = "m\<lparr>coord := ?c3, world := w', history := ?h3\<rparr>"
  have e: "execStep n m = abort ?m3"
    unfolding execStep_def
    using fw n sd a c r wf
    apply (simp add: forward_def andThen_def getC_def setC_def index_def ret_def lift_def Let_def
        del: isReturnError.simps getFuncValue.simps)
    apply (rule arg_cong [where f = abort])
    apply simp
    done
  have tc: "?tc ! j = CompensateFunc (steps sg ! j)" if "j \<le> n" for j
    using that by (rule nth_map_upt_snoc)
  have "\<exists>w' new. abort ?m3 =
           (Inr (), ?m3\<lparr>coord := (coord ?m3)\<lparr>aborted := True\<rparr>, world := w', history := history ?m3 @ new\<rparr>)
         \<and> logsOf new = (LogTypeSagaAbort, Some (length (toCompensate (coord ?m3))), None) #
               map (\<lambda>j. (LogTypeSagaStepCompensate, Some j,
                     Some (Step_Name (steps (saga (coord ?m3)) ! j)))) (rev [0..<length (toCompensate (coord ?m3))])
         \<and> callsOf new = map (\<lambda>j. (Compensation j, toCompensate (coord ?m3) ! j,
                   CtxV (ctx (coord ?m3)) # butlast (returnedValuesFromFunc (coord ?m3) ! j)))
                 (rev [0..<length (toCompensate (coord ?m3))])
         \<and> resultsOf new = []"
  proof (rule abort_ok)
    show "storeOK (logStore (coord ?m3))" using st sd by simp
    show "length (toCompensate (coord ?m3)) \<le> length (steps (saga (coord ?m3)))"
      using n sd by simp
    show "length (toCompensate (coord ?m3)) \<le> length (returnedValuesFromFunc (coord ?m3))"
      using fw by (simp add: forward_def)
    show "\<forall>j<length (toCompensate (coord ?m3)). returnsErr (toCompensate (coord ?m3) ! j)
            (CtxV (ctx (coord ?m3)) # butlast (returnedValuesFromFunc (coord ?m3) ! j)) None"
    proof (intro allI impI)
      fix j assume "j < length (toCompensate (coord ?m3))"
      then have j: "j \<le> n" by simp
      have len: "length (returnedValuesFromFunc (coord m)) = n"
        using fw by (simp add: forward_def)
      show "returnsErr (toCompensate (coord ?m3) ! j)
            (CtxV (ctx (coord ?m3)) # butlast (returnedValuesFromFunc (coord ?m3) ! j)) None"
      proof (cases "j = n")
        case True
        with ur len sd show ?thesis by (simp add: nth_append)
      next
        case False
        with j have "j < n" by simp
        with und len sd tc [OF j] show ?thesis
          by (simp add: undone_def nth_append del: upt_Suc)
      qed
    qed
  qed
  then obtain w3 new where ab: "abort ?m3 =
           (Inr (), m\<lparr>coord := ?c3\<lparr>aborted := True\<rparr>, world := w3, history := ?h3 @ new\<rparr>)"
    and lg: "logsOf new = (LogTypeSagaAbort, Some (Suc n), None) #
               map (\<lambda>j. (LogTypeSagaStepCompensate, Some j, Some (Step_Name (steps sg ! j)))) (rev [0..<Suc n])"
    and cl: "callsOf new = map (\<lambda>j. (Compensation j, ?tc ! j, CtxV cx # butlast (?rv ! j))) (rev [0..<Suc n])"
    and rs: "resultsOf new = []"
    using sd by (auto simp del: upt_Suc rev.simps)
  have cl': "callsOf new = compensationCalls cx sg ?rv (Suc n)"
    unfolding cl compensationCalls_def
    by (rule map_cong [OF refl]) (simp add: tc del: upt_Suc)
  let ?m' = "m\<lparr>coord := ?c3\<lparr>aborted := True\<rparr>, world := w3, history := ?h3 @ new\<rparr>"
  have "compensated sg cx (Suc n) e ?m'"
    using fw lg cl' rs
    by (simp add: forward_def compensated_def logsOf_append callsOf_append resultsOf_append
        newLog_def stepLogs_def actionCalls_def del: upt_Suc rev.simps)
       (simp add: stepLogs_def)
  with e ab show ?thesis by simp
qed

subsection \<open>The loop of Play\<close>

lemma playFrom_step:
  "i < length (steps (saga (coord m))) \<Longrightarrow> fst (execStep i m) = Inr () \<Longrightarrow>
     playFrom i m = playFrom (Suc i) (snd (execStep i m))"
  by (cases "execStep i m") (simp add: playFrom.simps [of i m])

lemma playFrom_panic:
  "i < length (steps (saga (coord m))) \<Longrightarrow> fst (execStep i m) = Inl p \<Longrightarrow>
     playFrom i m = (Inl p, snd (execStep i m))"
  by (cases "execStep i m") (simp add: playFrom.simps [of i m])

lemma playFrom_done: "length (steps (saga (coord m))) \<le> i \<Longrightarrow> playFrom i m = (Inr (), m)"
  by (simp add: playFrom.simps [of i m])

lemma execStep_aborted: "aborted (coord m) \<Longrightarrow> execStep i m = (Inr (), m)"
  by (simp add: execStep_def andThen_def getC_def ret_def)

lemma playFrom_aborted: "aborted (coord m) \<Longrightarrow> playFrom i m = (Inr (), m)"
proof (induction i m rule: playFrom.induct)
  case (1 i m)
  show ?case
  proof (cases "i < length (steps (saga (coord m)))")
    case True
    have "playFrom i m = playFrom (i + 1) m"
      using True "1.prems" by (simp add: playFrom.simps [of i m] execStep_aborted)
    also have "\<dots> = (Inr (), m)"
      using "1.IH" [OF True _ _ "1.prems"] "1.prems" by (simp add: execStep_aborted)
    finally show ?thesis .
  next
    case False
    then show ?thesis by (simp add: playFrom_done)
  qed
qed

lemma playFrom_forward:
  assumes s: "static m = (sg, st, cx, eid, clk)"
    and fw: "forward sg cx i m"
    and st: "storeOK st"
    and k: "i \<le> k" "k \<le> length (steps sg)"
    and ok: "\<forall>j. i \<le> j \<and> j < k \<longrightarrow> stepOK cx (steps sg ! j)"
  shows "\<exists>m'. playFrom i m = playFrom k m' \<and> static m' = (sg, st, cx, eid, clk) \<and> forward sg cx k m'"
  using k(1)
proof (induction k rule: dec_induct)
  case base
  from s fw show ?case by blast
next
  case (step n)
  then obtain m' where m': "playFrom i m = playFrom n m'" "static m' = (sg, st, cx, eid, clk)"
      "forward sg cx n m'"
    by blast
  have n: "n < length (steps sg)" using step.hyps k by simp
  have "stepOK cx (steps sg ! n)" using ok step.hyps by simp
  from execStep_ok [OF m'(2,3) st n this]
  have e: "fst (execStep n m') = Inr ()" "forward sg cx (Suc n) (snd (execStep n m'))"
    by simp_all
  have "static (snd (execStep n m')) = (sg, st, cx, eid, clk)"
    using keepsD [OF keeps_execStep, of n m'] m'(2) by simp
  moreover have "playFrom n m' = playFrom (Suc n) (snd (execStep n m'))"
    using n staticD(1) [OF m'(2)] e(1) by (intro playFrom_step) simp_all
  ultimately show ?case using m'(1) e(2) by auto
qed

lemma playFrom_forward_undone:
  assumes s: "static m = (sg, st, cx, eid, clk)"
    and fw: "forward sg cx i m"
    and und: "undone sg cx i m"
    and st: "storeOK st"
    and k: "i \<le> k" "k \<le> length (steps sg)"
    and ok: "\<forall>j. i \<le> j \<and> j < k \<longrightarrow> stepOK cx (steps sg ! j) \<and> undoes cx (steps sg ! j)"
  shows "\<exists>m'. playFrom i m = playFrom k m' \<and> static m' = (sg, st, cx, eid, clk) \<and>
           forward sg cx k m' \<and> undone sg cx k m'"
  using k(1)
proof (induction k rule: dec_induct)
  case base
  from s fw und show ?case by blast
next
  case (step n)
  then obtain m' where m': "playFrom i m = playFrom n m'" "static m' = (sg, st, cx, eid, clk)"
      "forward sg cx n m'" "undone sg cx n m'"
    by blast
  have n: "n < length (steps sg)" using step.hyps k by simp
  have o: "stepOK cx (steps sg ! n)" "undoes cx (steps sg ! n)" using ok step.hyps by simp_all
  from execStep_ok_undone [OF m'(2,3) st n o(1) m'(4) o(2)]
  have e: "fst (execStep n m') = Inr ()" "forward sg cx (Suc n) (snd (execStep n m'))"
    "undone sg cx (Suc n) (snd (execStep n m'))"
    by simp_all
  have "static (snd (execStep n m')) = (sg, st, cx, eid, clk)"
    using keepsD [OF keeps_execStep, of n m'] m'(2) by simp
  moreover have "playFrom n m' = playFrom (Suc n) (snd (execStep n m'))"
    using n staticD(1) [OF m'(2)] e(1) by (intro playFrom_step) simp_all
  ultimately show ?case using m'(1) e(2,3) by auto
qed

lemma start_static: "static (start cx sg st eid w clk) = (sg, st, cx, eid, clk)"
  by (simp add: static_def start_def NewCoordinator_def)

lemma started:
  assumes "storeOK st"
  shows "\<exists>m. appendLog LogTypeStartSaga None None (start cx sg st eid w clk) = (Inr (), m) \<and>
           static m = (sg, st, cx, eid, clk) \<and> forward sg cx 0 m"
proof -
  let ?m0 = "start cx sg st eid w clk"
  let ?l = "newLog LogTypeStartSaga None None ?m0"
  let ?m1 = "?m0\<lparr>world := snd (logStore (coord ?m0) ?l (world ?m0)),
                 history := history ?m0 @ [Append ?l None]\<rparr>"
  have "storeOK (logStore (coord ?m0))"
    using assms by (simp add: start_def NewCoordinator_def)
  then have "appendLog LogTypeStartSaga None None ?m0 = (Inr (), ?m1)"
    by (rule appendLog_ok)
  moreover have "static ?m1 = (sg, st, cx, eid, clk)"
    by (simp add: static_def start_def NewCoordinator_def)
  moreover have "forward sg cx 0 ?m1"
    by (simp add: forward_def start_def NewCoordinator_def newLog_def stepLogs_def actionCalls_def)
  ultimately show ?thesis by blast
qed

lemma completed:
  assumes s: "static m = (sg, st, cx, eid, clk)" and st: "storeOK st"
  shows "\<exists>l w'. andThen (appendLog LogTypeSagaComplete None None) (\<lambda>_. andThen getC (\<lambda>c. ret \<lparr>Err = err c\<rparr>)) m =
           (Inr \<lparr>Err = err (coord m)\<rparr>, m\<lparr>world := w', history := history m @ [Append l None]\<rparr>) \<and>
         (Log_Type l, StepNumber l, StepName l) = (LogTypeSagaComplete, None, None)"
proof -
  let ?l = "newLog LogTypeSagaComplete None None m"
  have "appendLog LogTypeSagaComplete None None m =
          (Inr (), m\<lparr>world := snd (logStore (coord m) ?l (world m)),
                       history := history m @ [Append ?l None]\<rparr>)"
    using appendLog_ok [of m] st staticD [OF s] by simp
  then have "andThen (appendLog LogTypeSagaComplete None None) (\<lambda>_. andThen getC (\<lambda>c. ret \<lparr>Err = err c\<rparr>)) m =
           (Inr \<lparr>Err = err (coord m)\<rparr>, m\<lparr>world := snd (logStore (coord m) ?l (world m)),
                       history := history m @ [Append ?l None]\<rparr>)"
    by (simp add: andThen_def getC_def ret_def)
  moreover have "(Log_Type ?l, StepNumber ?l, StepName ?l) = (LogTypeSagaComplete, None, None)"
    by (simp add: newLog_def)
  ultimately show ?thesis by blast
qed

lemma Play_succeeds:
  assumes st: "storeOK st"
    and ok: "\<forall>j<length (steps sg). stepOK cx (steps sg ! j)"
  shows "\<exists>m l w'. Play (start cx sg st eid w clk) =
           (Inr \<lparr>Err = None\<rparr>, m\<lparr>world := w', history := history m @ [Append l None]\<rparr>) \<and>
         forward sg cx (length (steps sg)) m \<and>
         (Log_Type l, StepNumber l, StepName l) = (LogTypeSagaComplete, None, None)"
proof -
  let ?m0 = "start cx sg st eid w clk"
  from started [OF st] obtain m1 where m1: "appendLog LogTypeStartSaga None None ?m0 = (Inr (), m1)"
    "static m1 = (sg, st, cx, eid, clk)" "forward sg cx 0 m1"
    by blast
  from playFrom_forward [OF m1(2,3) st, of "length (steps sg)"] ok
  obtain m2 where m2: "playFrom 0 m1 = playFrom (length (steps sg)) m2"
    "static m2 = (sg, st, cx, eid, clk)" "forward sg cx (length (steps sg)) m2"
    by auto
  have p: "playFrom 0 m1 = (Inr (), m2)"
    using m2(1) staticD(1) [OF m2(2)] by (simp add: playFrom_done)
  from completed [OF m2(2) st] obtain l w' where
    c: "andThen (appendLog LogTypeSagaComplete None None) (\<lambda>_. andThen getC (\<lambda>c. ret \<lparr>Err = err c\<rparr>)) m2 =
           (Inr \<lparr>Err = err (coord m2)\<rparr>, m2\<lparr>world := w', history := history m2 @ [Append l None]\<rparr>)"
    and l: "(Log_Type l, StepNumber l, StepName l) = (LogTypeSagaComplete, None, None)"
    by blast
  have "Play ?m0 = (Inr \<lparr>Err = err (coord m2)\<rparr>, m2\<lparr>world := w', history := history m2 @ [Append l None]\<rparr>)"
    unfolding Play_def using m1(1) p c by (simp add: andThen_def)
  moreover have "err (coord m2) = None" using m2(3) by (simp add: forward_def)
  ultimately show ?thesis using m2(3) l by auto
qed

lemma Play_compensates:
  assumes st: "storeOK st"
    and k: "k < length (steps sg)"
    and ok: "\<forall>j<k. stepOK cx (steps sg ! j)"
    and fails: "stepFails cx (steps sg ! k) e"
    and comp: "\<forall>j\<le>k. undoes cx (steps sg ! j)"
  shows "\<exists>m l w'. Play (start cx sg st eid w clk) =
           (Inr \<lparr>Err = Some e\<rparr>, m\<lparr>world := w', history := history m @ [Append l None]\<rparr>) \<and>
         compensated sg cx (Suc k) e m \<and>
         (Log_Type l, StepNumber l, StepName l) = (LogTypeSagaComplete, None, None)"
proof -
  let ?m0 = "start cx sg st eid w clk"
  from started [OF st] obtain m1 where m1: "appendLog LogTypeStartSaga None None ?m0 = (Inr (), m1)"
    "static m1 = (sg, st, cx, eid, clk)" "forward sg cx 0 m1"
    by blast
  have u1: "undone sg cx 0 m1" by (simp add: undone_def)
  from playFrom_forward_undone [OF m1(2,3) u1 st, of k] ok comp k
  obtain m2 where m2: "playFrom 0 m1 = playFrom k m2"
    "static m2 = (sg, st, cx, eid, clk)" "forward sg cx k m2" "undone sg cx k m2"
    by auto
  let ?m3 = "snd (execStep k m2)"
  from comp have uk: "undoes cx (steps sg ! k)" by simp
  from execStep_fails [OF m2(2,3) st k fails m2(4) uk]
  have e: "fst (execStep k m2) = Inr ()" "compensated sg cx (Suc k) e ?m3"
    by simp_all
  have s3: "static ?m3 = (sg, st, cx, eid, clk)"
    using keepsD [OF keeps_execStep, of k m2] m2(2) by simp
  have "playFrom k m2 = playFrom (Suc k) ?m3"
    using k staticD(1) [OF m2(2)] e(1) by (intro playFrom_step) simp_all
  also have "\<dots> = (Inr (), ?m3)"
    using e(2) by (intro playFrom_aborted) (simp add: compensated_def)
  finally have p: "playFrom 0 m1 = (Inr (), ?m3)" using m2(1) by simp
  from completed [OF s3 st] obtain l w' where
    c: "andThen (appendLog LogTypeSagaComplete None None) (\<lambda>_. andThen getC (\<lambda>c. ret \<lparr>Err = err c\<rparr>)) ?m3 =
           (Inr \<lparr>Err = err (coord ?m3)\<rparr>, ?m3\<lparr>world := w', history := history ?m3 @ [Append l None]\<rparr>)"
    and l: "(Log_Type l, StepNumber l, StepName l) = (LogTypeSagaComplete, None, None)"
    by blast
  have "Play ?m0 = (Inr \<lparr>Err = err (coord ?m3)\<rparr>, ?m3\<lparr>world := w', history := history ?m3 @ [Append l None]\<rparr>)"
    unfolding Play_def using m1(1) p c by (simp add: andThen_def)
  moreover have "err (coord ?m3) = Some e" using e(2) by (simp add: compensated_def)
  ultimately show ?thesis using e(2) l by auto
qed

subsection \<open>The shape of a registered object\<close>

text \<open>
  \<open>isFunc\<close>: the kind of the object is \<open>reflect.Func\<close>.  \<open>firstParam\<close>: the type of its first
  declared parameter, if it is a function and has one.  \<open>configError f\<close>: the panic
  \<open>getFuncValue\<close> raises for a malformed \<open>f\<close>.
\<close>

definition isFunc :: "'w obj \<Rightarrow> bool" where
  "isFunc f = (case f of NonFunc v \<Rightarrow> False | Fn ins body \<Rightarrow> True)"

definition firstParam :: "'w obj \<Rightarrow> rtype option" where
  "firstParam f = (case f of NonFunc v \<Rightarrow> None | Fn ins body \<Rightarrow> (case ins of [] \<Rightarrow> None | t # ts \<Rightarrow> Some t))"

definition configError :: "'w obj \<Rightarrow> panic" where
  "configError f =
     LogPanicln [] (Error (if isFunc f then ''first argument must use context.ctx''
                           else ''registered object must be a func''))"

lemma getFuncValue_malformed:
  "\<not> isFunc f \<or> firstParam f \<noteq> Some ContextT \<Longrightarrow> getFuncValue f = Inl (configError f)"
  by (cases f) (auto simp: isFunc_def firstParam_def configError_def split: list.splits)

subsection \<open>Runs that reach a step\<close>

lemma Play_reaches:
  assumes st: "storeOK st"
    and k: "k < length (steps sg)"
    and ok: "\<forall>j<k. stepOK cx (steps sg ! j)"
  shows "\<exists>m. static m = (sg, st, cx, eid, clk) \<and> forward sg cx k m \<and>
           (\<forall>p. fst (execStep k m) = Inl p \<longrightarrow>
                Play (start cx sg st eid w clk) = (Inl p, snd (execStep k m)))"
proof -
  let ?m0 = "start cx sg st eid w clk"
  from started [OF st] obtain m1 where m1: "appendLog LogTypeStartSaga None None ?m0 = (Inr (), m1)"
    "static m1 = (sg, st, cx, eid, clk)" "forward sg cx 0 m1"
    by blast
  from playFrom_forward [OF m1(2,3) st, of k] ok k
  obtain m2 where m2: "playFrom 0 m1 = playFrom k m2"
    "static m2 = (sg, st, cx, eid, clk)" "forward sg cx k m2"
    by auto
  have "Play ?m0 = (Inl p, snd (execStep k m2))" if "fst (execStep k m2) = Inl p" for p
  proof -
    have "playFrom k m2 = (Inl p, snd (execStep k m2))"
      using k staticD(1) [OF m2(2)] that by (intro playFrom_panic) simp_all
    then show ?thesis
      unfolding Play_def using m1(1) m2(1) by (simp add: andThen_def)
  qed
  with m2(2,3) show ?thesis by blast
qed

lemma execStep_badAction:
  assumes s: "static m = (sg, st, cx, eid, clk)"
    and fw: "forward sg cx n m"
    and st: "storeOK st"
    and n: "n < length (steps sg)"
    and bad: "getFuncValue (Func (steps sg ! n)) = Inl p"
  shows "\<exists>l w'. execStep n m = (Inl p, m\<lparr>world := w', history := history m @ [Append l None]\<rparr>) \<and>
           (Log_Type l, StepNumber l, StepName l) =
             (LogTypeSagaStepExec, Some n, Some (Step_Name (steps sg ! n)))"
proof -
  note sd = staticD [OF s]
  let ?s = "steps sg ! n"
  let ?l = "newLog LogTypeSagaStepExec (Some n) (Some (Step_Name ?s)) m"
  let ?m1 = "m\<lparr>world := snd (st ?l (world m)), history := history m @ [Append ?l None]\<rparr>"
  have a: "appendLog LogTypeSagaStepExec (Some n) (Some (Step_Name ?s)) m = (Inr (), ?m1)"
    using appendLog_ok [of m] st sd by simp
  have "execStep n m = (Inl p, ?m1)"
    unfolding execStep_def
    using fw n sd a bad
    by (simp add: forward_def andThen_def getC_def setC_def index_def ret_def lift_def Let_def
        del: isReturnError.simps getFuncValue.simps)
  moreover have "(Log_Type ?l, StepNumber ?l, StepName ?l) =
             (LogTypeSagaStepExec, Some n, Some (Step_Name ?s))"
    by (simp add: newLog_def)
  ultimately show ?thesis by blast
qed

lemma execStep_badCompensation:
  assumes s: "static m = (sg, st, cx, eid, clk)"
    and fw: "forward sg cx n m"
    and st: "storeOK st"
    and n: "n < length (steps sg)"
    and wf: "wellFormed (Func (steps sg ! n))"
    and re: "returnsWhere (Func (steps sg ! n)) [CtxV cx] (\<lambda>r. True)"
    and bad: "getFuncValue (CompensateFunc (steps sg ! n)) = Inl p"
  shows "\<exists>l w' r. execStep n m =
           (Inl p, m\<lparr>world := w', history := history m @
              [Append l None, Invoke (Action n) (Func (steps sg ! n)) [CtxV cx] (Inr r)]\<rparr>) \<and>
           (Log_Type l, StepNumber l, StepName l) =
             (LogTypeSagaStepExec, Some n, Some (Step_Name (steps sg ! n)))"
proof -
  note sd = staticD [OF s]
  let ?s = "steps sg ! n"
  let ?l = "newLog LogTypeSagaStepExec (Some n) (Some (Step_Name ?s)) m"
  let ?m1 = "m\<lparr>world := snd (st ?l (world m)), history := history m @ [Append ?l None]\<rparr>"
  have a: "appendLog LogTypeSagaStepExec (Some n) (Some (Step_Name ?s)) m = (Inr (), ?m1)"
    using appendLog_ok [of m] st sd by simp
  from wf have wf': "getFuncValue (Func ?s) = Inr (Func ?s)"
    by (rule wellFormed_getFuncValue)
  from callValue_returns [OF re, of "Action n" ?m1]
  obtain r w' where
    c: "callValue (Action n) (Func ?s) [CtxV cx] ?m1 =
             (Inr r, ?m1\<lparr>world := w',
                        history := history ?m1 @ [Invoke (Action n) (Func ?s) [CtxV cx] (Inr r)]\<rparr>)"
    by blast
  have "execStep n m = (Inl p, m\<lparr>world := w', history := history m @
              [Append ?l None, Invoke (Action n) (Func ?s) [CtxV cx] (Inr r)]\<rparr>)"
    unfolding execStep_def
    using fw n sd a c wf' bad
    by (simp add: forward_def andThen_def getC_def setC_def index_def ret_def lift_def Let_def
        del: isReturnError.simps getFuncValue.simps)
  moreover have "(Log_Type ?l, StepNumber ?l, StepName ?l) =
             (LogTypeSagaStepExec, Some n, Some (Step_Name ?s))"
    by (simp add: newLog_def)
  ultimately show ?thesis by blast
qed

lemma filter_stepLogs: "ty \<noteq> ty' \<Longrightarrow> filter (\<lambda>x. fst x = ty') (stepLogs ty sg js) = []"
  by (simp add: stepLogs_def filter_empty_conv)

lemma Play_returns:
  assumes "Play m = (Inr res, m')"
  shows "\<exists>m2 l w'. m' = m2\<lparr>world := w', history := history m2 @ [Append l None]\<rparr> \<and>
           Log_Type l = LogTypeSagaComplete \<and> StepNumber l = None \<and> StepName l = None \<and>
           res = \<lparr>Err = err (coord m2)\<rparr>"
proof -
  obtain r1 m1 where 1: "appendLog LogTypeStartSaga None None m = (r1, m1)"
    by (cases "appendLog LogTypeStartSaga None None m")
  obtain r2 m2 where 2: "playFrom 0 m1 = (r2, m2)"
    by (cases "playFrom 0 m1")
  let ?l = "newLog LogTypeSagaComplete None None m2"
  let ?x = "logStore (coord m2) ?l (world m2)"
  from assms 1 2 have "fst ?x = None \<and> m' = m2\<lparr>world := snd ?x, history := history m2 @ [Append ?l None]\<rparr>
      \<and> res = \<lparr>Err = err (coord m2)\<rparr>"
    by (auto simp: Play_def andThen_def appendLog_eq checkErr_def getC_def ret_def
        split: sum.splits option.splits)
  moreover have "Log_Type ?l = LogTypeSagaComplete \<and> StepNumber ?l = None \<and> StepName ?l = None"
    by (simp add: newLog_def)
  ultimately show ?thesis by blast
qed

subsection \<open>Events after which a run does not go on\<close>

text \<open>
  \<open>storeFault\<close> marks an append for which the store returned an error, and
  \<open>compensationFault\<close> an invocation of a compensation that returned a non-nil error,
  each with the panic that follows.  \<open>sound fatal\<close>: the marking \<open>fatal\<close> marks only such
  events.  \<open>stopsAt fatal f m\<close>: in what \<open>f\<close> adds to the history of \<open>m\<close>, only the last event
  can be marked, and when it is, \<open>f\<close> panics with the panic it is marked with.
\<close>

definition storeFault :: "'w event \<Rightarrow> panic option" where
  "storeFault ev = (case ev of Append l (Some e) \<Rightarrow> Some (LogPanicln [] e) | _ \<Rightarrow> None)"

definition compensationFault :: "'w event \<Rightarrow> panic option" where
  "compensationFault ev =
     (case ev of
        Invoke (Compensation i) f a (Inr r) \<Rightarrow>
          (case isReturnError r of Inr (Some e) \<Rightarrow> Some (PanicErr e) | _ \<Rightarrow> None)
      | _ \<Rightarrow> None)"

definition sound :: "('w event \<Rightarrow> panic option) \<Rightarrow> bool" where
  "sound fatal =
     ((\<forall>l e p. fatal (Append l e) = Some p \<longrightarrow> checkErr e [] = Inl p) \<and>
      (\<forall>i f a r. fatal (Invoke (Action i) f a r) = None) \<and>
      (\<forall>i f a r p. fatal (Invoke (Compensation i) f a r) = Some p \<longrightarrow>
         (\<exists>out e. r = Inr out \<and> isReturnError out = Inr (Some e) \<and> p = PanicErr e)))"

definition stopsAt :: "('w event \<Rightarrow> panic option) \<Rightarrow> ('w, 'a) prog \<Rightarrow> 'w machine \<Rightarrow> bool" where
  "stopsAt fatal f m =
     (\<exists>new. history (snd (f m)) = history m @ new \<and>
        (\<forall>ev\<in>set (butlast new). fatal ev = None) \<and>
        (\<forall>p. new \<noteq> [] \<and> fatal (last new) = Some p \<longrightarrow> fst (f m) = Inl p))"

lemma sound_storeFault: "sound storeFault"
  by (auto simp: sound_def storeFault_def checkErr_def split: option.splits)

lemma sound_compensationFault: "sound compensationFault"
  by (auto simp: sound_def compensationFault_def split: sum.splits option.splits simp del: isReturnError.simps)

lemma stopsAt_silent: "history (snd (f m)) = history m \<Longrightarrow> stopsAt fatal f m"
  by (simp add: stopsAt_def)

lemma stopsAt_cong: "f m = g m \<Longrightarrow> stopsAt fatal g m \<Longrightarrow> stopsAt fatal f m"
  by (simp add: stopsAt_def)

lemma stopsAt_ret: "stopsAt fatal (ret x) m"
  by (rule stopsAt_silent) (simp add: ret_def)

lemma stopsAt_raise: "stopsAt fatal (raise p) m"
  by (rule stopsAt_silent) (simp add: raise_def)

lemma stopsAt_lift: "stopsAt fatal (lift r) m"
  by (rule stopsAt_silent) (simp add: lift_def)

lemma stopsAt_getC: "stopsAt fatal getC m"
  by (rule stopsAt_silent) (simp add: getC_def)

lemma stopsAt_setC: "stopsAt fatal (setC g) m"
  by (rule stopsAt_silent) (simp add: setC_def)

lemma stopsAt_index: "stopsAt fatal (index xs i) m"
  by (rule stopsAt_silent) (simp add: index_def ret_def raise_def)

lemma stopsAt_andThen:
  assumes f: "stopsAt fatal f m"
    and g: "\<And>x. fst (f m) = Inr x \<Longrightarrow> stopsAt fatal (g x) (snd (f m))"
  shows "stopsAt fatal (andThen f g) m"
proof (cases "fst (f m)")
  case (Inl p)
  then have "andThen f g m = (Inl p, snd (f m))" by (rule andThen_Inl)
  with f Inl show ?thesis by (simp add: stopsAt_def)
next
  case (Inr x)
  then have a: "andThen f g m = g x (snd (f m))" by (rule andThen_Inr)
  from f obtain new1 where n1: "history (snd (f m)) = history m @ new1"
    "\<forall>ev\<in>set (butlast new1). fatal ev = None"
    "\<forall>p. new1 \<noteq> [] \<and> fatal (last new1) = Some p \<longrightarrow> fst (f m) = Inl p"
    unfolding stopsAt_def by blast
  from n1(2,3) Inr have all1: "\<forall>ev\<in>set new1. fatal ev = None"
    by (cases new1 rule: rev_cases) auto
  from g [OF Inr] obtain new2 where n2: "history (snd (g x (snd (f m)))) = history (snd (f m)) @ new2"
    "\<forall>ev\<in>set (butlast new2). fatal ev = None"
    "\<forall>p. new2 \<noteq> [] \<and> fatal (last new2) = Some p \<longrightarrow> fst (g x (snd (f m))) = Inl p"
    unfolding stopsAt_def by blast
  have "history (snd (andThen f g m)) = history m @ (new1 @ new2)"
    using a n1(1) n2(1) by simp
  moreover have "\<forall>ev\<in>set (butlast (new1 @ new2)). fatal ev = None"
    using all1 n2(2) by (auto simp: butlast_append dest: in_set_butlastD)
  moreover have "\<forall>p. new1 @ new2 \<noteq> [] \<and> fatal (last (new1 @ new2)) = Some p \<longrightarrow>
      fst (andThen f g m) = Inl p"
    using all1 n2(3) a by (cases "new2 = []") auto
  ultimately show ?thesis unfolding stopsAt_def by blast
qed

lemma stopsAt_appendLog:
  assumes "sound fatal"
  shows "stopsAt fatal (appendLog ty num nm) m"
  unfolding stopsAt_def
  using assms
  by (intro exI [of _ "[Append (newLog ty num nm m) (fst (logStore (coord m) (newLog ty num nm m) (world m)))]"])
     (simp add: appendLog_eq sound_def)

lemma stopsAt_action:
  assumes "sound fatal"
  shows "stopsAt fatal (callValue (Action i) f params) m"
proof (cases f)
  case (NonFunc v)
  then show ?thesis by (intro stopsAt_silent) simp
next
  case (Fn ins body)
  then show ?thesis
    unfolding stopsAt_def using assms
    by (intro exI [of _ "[Invoke (Action i) f params (fst (body params (world m)))]"])
       (simp add: sound_def case_prod_beta)
qed

lemma stopsAt_compensation:
  assumes "sound fatal"
  shows "stopsAt fatal
           (andThen (callValue (Compensation i) f params) (\<lambda>res.
            andThen (lift (isReturnError res)) (\<lambda>e.
              case e of Some er \<Rightarrow> raise (PanicErr er) | None \<Rightarrow> ret ()))) m"
proof (cases f)
  case (NonFunc v)
  then show ?thesis by (intro stopsAt_silent) (simp add: andThen_def)
next
  case (Fn ins body)
  let ?r = "fst (body params (world m))"
  let ?ev = "Invoke (Compensation i) f params ?r"
  let ?prog = "andThen (callValue (Compensation i) f params) (\<lambda>res.
            andThen (lift (isReturnError res)) (\<lambda>e.
              case e of Some er \<Rightarrow> raise (PanicErr er) | None \<Rightarrow> ret ()))"
  have h: "history (snd (?prog m)) = history m @ [?ev]"
    using Fn
    by (simp add: andThen_def lift_def raise_def ret_def case_prod_beta
        split: sum.split option.split del: isReturnError.simps)
  have "fst (?prog m) = Inl p" if "fatal ?ev = Some p" for p
  proof -
    from assms that obtain out e where "?r = Inr out" "isReturnError out = Inr (Some e)" "p = PanicErr e"
      unfolding sound_def by blast
    then show ?thesis
      using Fn by (simp add: andThen_def lift_def raise_def case_prod_beta del: isReturnError.simps)
  qed
  with h show ?thesis
    unfolding stopsAt_def by (intro exI [of _ "[?ev]"]) simp
qed

lemma stopsAt_compensateStep:
  assumes "sound fatal"
  shows "stopsAt fatal (compensateStep i) m"
  unfolding compensateStep_def
  by (intro stopsAt_andThen stopsAt_getC stopsAt_index stopsAt_appendLog [OF assms]
      stopsAt_compensation [OF assms])

lemma stopsAt_compensateFrom:
  assumes "sound fatal"
  shows "stopsAt fatal (compensateFrom n) m"
proof (induction n arbitrary: m)
  case 0
  show ?case by (simp add: stopsAt_ret)
next
  case (Suc n)
  show ?case
    by (subst compensateFrom.simps) (intro stopsAt_andThen stopsAt_compensateStep [OF assms] Suc.IH)
qed

lemma stopsAt_abort:
  assumes "sound fatal"
  shows "stopsAt fatal abort m"
  unfolding abort_def Let_def
  by (intro stopsAt_andThen stopsAt_getC stopsAt_appendLog [OF assms] stopsAt_setC
      stopsAt_compensateFrom [OF assms])

lemma stopsAt_execStep:
  assumes "sound fatal"
  shows "stopsAt fatal (execStep i) m"
proof -
  have tail: "stopsAt fatal (case e of Some er \<Rightarrow> andThen (setC (\<lambda>c. c\<lparr>err := Some er\<rparr>)) (\<lambda>_. abort)
                     | None \<Rightarrow> ret ()) m'" for e :: "error option" and m' :: "'a machine"
    by (cases e) (auto intro!: stopsAt_andThen stopsAt_setC stopsAt_abort [OF assms] stopsAt_ret)
  show ?thesis
  proof (cases "aborted (coord m)")
    case True
    then show ?thesis by (intro stopsAt_silent) (simp add: execStep_aborted)
  next
    case False
    let ?body = "andThen (index (steps (saga (coord m))) i) (\<lambda>st.
       andThen (appendLog LogTypeSagaStepExec (Some i) (Some (Step_Name st))) (\<lambda>_.
       andThen getC (\<lambda>c.
       andThen (index (steps (saga c)) i) (\<lambda>st.
       let f = Func st; compensate = CompensateFunc st; params = [CtxV (ctx c)] in
       andThen (lift (getFuncValue f)) (\<lambda>fv.
       andThen (callValue (Action i) fv params) (\<lambda>resp.
       andThen (lift (getFuncValue compensate)) (\<lambda>cv.
       andThen (setC (\<lambda>c. c\<lparr>toCompensate := toCompensate c @ [cv]\<rparr>)) (\<lambda>_.
       andThen (setC (\<lambda>c. c\<lparr>returnedValuesFromFunc := returnedValuesFromFunc c @ [resp]\<rparr>)) (\<lambda>_.
       andThen (lift (isReturnError resp)) (\<lambda>e.
         case e of
           Some er \<Rightarrow> andThen (setC (\<lambda>c. c\<lparr>err := Some er\<rparr>)) (\<lambda>_. abort)
         | None \<Rightarrow> ret ()))))))))))"
    from False have e: "execStep i m = ?body m"
      by (simp add: execStep_def andThen_getC)
    have "stopsAt fatal ?body m"
      unfolding Let_def
      by (intro stopsAt_andThen stopsAt_getC stopsAt_index stopsAt_appendLog [OF assms]
          stopsAt_lift stopsAt_action [OF assms] stopsAt_setC tail)
    with e show ?thesis by (simp add: stopsAt_def)
  qed
qed

lemma playFrom_andThen:
  "playFrom i m =
     (if i < length (steps (saga (coord m))) then andThen (execStep i) (\<lambda>_. playFrom (i + 1)) m
      else (Inr (), m))"
  by (simp add: playFrom.simps [of i m] andThen_def split: prod.split sum.split)

lemma stopsAt_playFrom:
  assumes "sound fatal"
  shows "stopsAt fatal (playFrom i) m"
proof (induction i m rule: playFrom.induct)
  case (1 i m)
  show ?case
  proof (cases "i < length (steps (saga (coord m)))")
    case False
    then show ?thesis by (intro stopsAt_silent) (simp add: playFrom_done)
  next
    case True
    have "stopsAt fatal (andThen (execStep i) (\<lambda>_. playFrom (i + 1))) m"
    proof (rule stopsAt_andThen [OF stopsAt_execStep [OF assms]])
      fix x assume "fst (execStep i m) = Inr x"
      then have "(Inr x, snd (execStep i m)) = execStep i m"
        by (cases "execStep i m") simp
      from "1.IH" [OF True this refl]
      show "stopsAt fatal (playFrom (i + 1)) (snd (execStep i m))" .
    qed
    moreover have "playFrom i m = andThen (execStep i) (\<lambda>_. playFrom (i + 1)) m"
      using True playFrom_andThen [of i m] by simp
    ultimately show ?thesis by (simp add: stopsAt_def)
  qed
qed

lemma stopsAt_Play:
  assumes "sound fatal"
  shows "stopsAt fatal Play m"
  unfolding Play_def
  by (intro stopsAt_andThen stopsAt_appendLog [OF assms] stopsAt_playFrom [OF assms]
      stopsAt_getC stopsAt_ret)

subsection \<open>The errors the actions of a run returned\<close>

text \<open>
  \<open>actionFault\<close>: the non-nil error an invocation of an action returned, if it returned
  one.  \<open>actionErrors\<close>: these errors, in the order of the history.
\<close>

definition actionFault :: "'w event \<Rightarrow> error option" where
  "actionFault ev =
     (case ev of
        Invoke (Action i) f a (Inr r) \<Rightarrow>
          (case isReturnError r of Inr (Some e) \<Rightarrow> Some e | _ \<Rightarrow> None)
      | _ \<Rightarrow> None)"

definition actionErrors :: "'w event list \<Rightarrow> error list" where
  "actionErrors h = List.map_filter actionFault h"

lemma actionErrors_append: "actionErrors (h @ h') = actionErrors h @ actionErrors h'"
  by (simp add: actionErrors_def map_filter_def)

lemma actionErrors_Nil: "actionErrors [] = []"
  by (simp add: actionErrors_def map_filter_def)

lemma actionErrors_Append: "actionErrors (Append l e # h) = actionErrors h"
  by (simp add: actionErrors_def map_filter_def actionFault_def)

lemma actionErrors_Compensation: "actionErrors (Invoke (Compensation i) f a r # h) = actionErrors h"
  by (simp add: actionErrors_def map_filter_def actionFault_def)

lemma actionErrors_Action:
  "actionErrors (Invoke (Action i) f a r # h) =
     (case r of Inl p \<Rightarrow> [] | Inr out \<Rightarrow>
        (case isReturnError out of Inr (Some e) \<Rightarrow> [e] | _ \<Rightarrow> [])) @ actionErrors h"
  by (simp add: actionErrors_def map_filter_def actionFault_def
      split: sum.splits option.splits del: isReturnError.simps)

lemmas actionErrors_simps =
  actionErrors_append actionErrors_Nil actionErrors_Append actionErrors_Compensation actionErrors_Action

lemma callValue_eq:
  "callValue st f params m =
     (case f of
        NonFunc v \<Rightarrow> (Inl (RuntimePanic ''reflect: call of reflect.Value.Call on non-func Value''), m)
      | Fn ins body \<Rightarrow>
          (fst (body params (world m)),
           m\<lparr>world := snd (body params (world m)),
             history := history m @ [Invoke st f params (fst (body params (world m)))]\<rparr>))"
  by (cases f) (simp_all add: case_prod_beta)

text \<open>
  \<open>quiet f m\<close>: \<open>f\<close> leaves the coordinator as it is and adds no error of an action.
  \<open>errInv\<close>: the error the coordinator holds is the one error an action returned, and the
  coordinator that holds an error has aborted.
\<close>

definition quiet :: "('w, 'a) prog \<Rightarrow> 'w machine \<Rightarrow> bool" where
  "quiet f m =
     (coord (snd (f m)) = coord m \<and>
      actionErrors (history (snd (f m))) = actionErrors (history m))"

lemma quiet_same: "snd (f m) = m \<Longrightarrow> quiet f m"
  by (simp add: quiet_def)

lemma quiet_andThen:
  assumes "quiet f m" and "\<And>x. fst (f m) = Inr x \<Longrightarrow> quiet (g x) (snd (f m))"
  shows "quiet (andThen f g) m"
proof (cases "fst (f m)")
  case (Inl p)
  with assms(1) show ?thesis by (simp add: quiet_def andThen_Inl)
next
  case (Inr x)
  with assms(1) assms(2) [OF Inr] show ?thesis by (simp add: quiet_def andThen_Inr)
qed

lemma quiet_appendLog: "quiet (appendLog ty num nm) m"
  by (simp add: quiet_def appendLog_eq actionErrors_simps)

lemma quiet_compensation: "quiet (callValue (Compensation i) f params) m"
  by (cases f)
     (simp_all add: quiet_def case_prod_beta actionErrors_simps)

lemma quiet_compensateStep: "quiet (compensateStep i) m"
  unfolding compensateStep_def
  by (intro quiet_andThen quiet_appendLog quiet_compensation)
     (simp_all add: quiet_def getC_def index_def ret_def raise_def lift_def split: option.split)

lemma quiet_compensateFrom: "quiet (compensateFrom n) m"
proof (induction n arbitrary: m)
  case 0
  show ?case by (simp add: quiet_def ret_def)
next
  case (Suc n)
  show ?case
    by (subst compensateFrom.simps) (intro quiet_andThen quiet_compensateStep Suc.IH)
qed

lemma abort_effect:
  assumes "fst (abort m) = Inr x"
  shows "coord (snd (abort m)) = (coord m)\<lparr>aborted := True\<rparr> \<and>
         actionErrors (history (snd (abort m))) = actionErrors (history m)"
proof -
  let ?n = "length (toCompensate (coord m))"
  let ?a = "appendLog LogTypeSagaAbort (Some ?n) None m"
  let ?m1 = "snd ?a"
  let ?m2 = "?m1\<lparr>coord := (coord ?m1)\<lparr>aborted := True\<rparr>\<rparr>"
  have ab: "abort m = andThen (appendLog LogTypeSagaAbort (Some ?n) None)
              (\<lambda>_. andThen (setC (\<lambda>c. c\<lparr>aborted := True\<rparr>)) (\<lambda>_. compensateFrom ?n)) m"
    by (simp add: abort_def andThen_getC Let_def)
  show ?thesis
  proof (cases "fst ?a")
    case (Inl p)
    with assms ab show ?thesis by (simp add: andThen_Inl)
  next
    case (Inr u)
    then have "abort m = compensateFrom ?n ?m2"
      unfolding ab by (simp add: andThen_Inr andThen_setC)
    moreover have "quiet (compensateFrom ?n) ?m2" by (rule quiet_compensateFrom)
    moreover have "quiet (appendLog LogTypeSagaAbort (Some ?n) None) m" by (rule quiet_appendLog)
    ultimately show ?thesis by (simp add: quiet_def)
  qed
qed

definition errInv :: "'w machine \<Rightarrow> bool" where
  "errInv m =
     (actionErrors (history m) = (case err (coord m) of None \<Rightarrow> [] | Some e \<Rightarrow> [e]) \<and>
      (err (coord m) \<noteq> None \<longrightarrow> aborted (coord m)))"

lemma abort_effect_dest:
  "fst (abort m) = Inr x \<Longrightarrow>
     aborted (coord (snd (abort m))) \<and> err (coord (snd (abort m))) = err (coord m) \<and>
     actionErrors (history (snd (abort m))) = actionErrors (history m)"
  using abort_effect [of m x] by simp

lemma errInv_execStep:
  assumes inv: "errInv m" and ret: "fst (execStep i m) = Inr x"
  shows "errInv (snd (execStep i m))"
proof (cases "aborted (coord m)")
  case True
  with inv show ?thesis by (simp add: execStep_aborted)
next
  case False
  with inv have e0: "err (coord m) = None" "actionErrors (history m) = []"
    by (auto simp: errInv_def)
  from ret False e0 show ?thesis
    by (auto simp: errInv_def execStep_def andThen_def getC_def setC_def index_def ret_def
        raise_def lift_def appendLog_eq callValue_eq Let_def case_prod_beta actionErrors_simps
        split: sum.splits option.splits if_splits obj.splits
        simp del: isReturnError.simps callValue.simps
        dest!: abort_effect_dest)
qed

lemma errInv_playFrom:
  "errInv m \<Longrightarrow> fst (playFrom i m) = Inr x \<Longrightarrow> errInv (snd (playFrom i m))"
proof (induction i m rule: playFrom.induct)
  case (1 i m)
  show ?case
  proof (cases "i < length (steps (saga (coord m)))")
    case False
    with "1.prems" show ?thesis by (simp add: playFrom_done)
  next
    case True
    show ?thesis
    proof (cases "fst (execStep i m)")
      case (Inl p)
      with True "1.prems" show ?thesis by (simp add: playFrom_panic)
    next
      case (Inr u)
      then have e: "(Inr u, snd (execStep i m)) = execStep i m"
        by (cases "execStep i m") simp
      have p: "playFrom i m = playFrom (i + 1) (snd (execStep i m))"
        using True Inr by (simp add: playFrom_step)
      from "1.IH" [OF True e refl errInv_execStep [OF "1.prems"(1) Inr]] "1.prems"(2)
      show ?thesis unfolding p by simp
    qed
  qed
qed

lemma errInv_Play:
  assumes "errInv m" and "fst (Play m) = Inr res"
  shows "actionErrors (history (snd (Play m))) = (case Err res of None \<Rightarrow> [] | Some e \<Rightarrow> [e])"
proof -
  let ?a = "appendLog LogTypeStartSaga None None m"
  let ?p = "playFrom 0 (snd ?a)"
  let ?c = "appendLog LogTypeSagaComplete None None (snd ?p)"
  from assms(2) obtain u where a: "fst ?a = Inr u"
    by (cases "fst ?a") (auto simp: Play_def andThen_Inl)
  from assms(2) a obtain v where p: "fst ?p = Inr v"
    by (cases "fst ?p") (auto simp: Play_def andThen_Inr andThen_Inl)
  from assms(2) a p obtain z where c: "fst ?c = Inr z"
    by (cases "fst ?c") (auto simp: Play_def andThen_Inr andThen_Inl)
  have P: "Play m = (Inr \<lparr>Err = err (coord (snd ?c))\<rparr>, snd ?c)"
    using a p c by (simp add: Play_def andThen_Inr andThen_getC ret_def)
  have "errInv (snd ?a)"
    using assms(1) quiet_appendLog [of LogTypeStartSaga None None m]
    by (simp add: errInv_def quiet_def)
  from errInv_playFrom [OF this p] have "errInv (snd ?p)" .
  then have "errInv (snd ?c)"
    using quiet_appendLog [of LogTypeSagaComplete None None "snd ?p"]
    by (simp add: errInv_def quiet_def)
  with P assms(2) show ?thesis by (auto simp: errInv_def)
qed

lemma last_if_not_butlast: "x \<in> set xs \<Longrightarrow> x \<notin> set (butlast xs) \<Longrightarrow> last xs = x"
  by (cases xs rule: rev_cases) auto

lemma start_errInv: "errInv (start cx sg st eid w clk)"
  by (simp add: errInv_def start_def NewCoordinator_def actionErrors_simps)

subsection \<open>The history of every run\<close>

text \<open>
  What a run of a new coordinator leaves in the history, whatever the store, the steps
  and the world do.  \<open>compensations c n j new\<close>: the events \<open>new\<close> are those of compensating
  the steps \<open>n-1..j\<close>, with the calls \<open>compensateStep\<close> makes from the coordinator \<open>c\<close>.
  \<open>plain\<close>: a history with the actions of steps \<open>0..n-1\<close> and nothing of an abort.
  \<open>unwound\<close>: a history with the actions of steps \<open>0..n-1\<close>, then one abort event with
  the number \<open>n\<close>, then the compensations of steps \<open>n-1..j\<close>.
\<close>

definition compensatingLog :: "'w Saga \<Rightarrow> nat \<Rightarrow> LogType \<times> nat option \<times> string option" where
  "compensatingLog sg i = (LogTypeSagaStepCompensate, Some i, Some (Step_Name (steps sg ! i)))"

definition compensationCall :: "'w ExecutionCoordinator \<Rightarrow> nat \<Rightarrow> site \<times> 'w obj \<times> val list" where
  "compensationCall c i =
     (Compensation i, toCompensate c ! i, CtxV (ctx c) # butlast (returnedValuesFromFunc c ! i))"

lemma compensateStep_effect:
  "\<exists>new. history (snd (compensateStep i m)) = history m @ new \<and>
     coord (snd (compensateStep i m)) = coord m \<and>
     resultsOf new = [] \<and>
     ((callsOf new = [] \<and> (logsOf new = [] \<or> logsOf new = [compensatingLog (saga (coord m)) i]) \<and>
       fst (compensateStep i m) \<noteq> Inr ())
      \<or> (callsOf new = [compensationCall (coord m) i] \<and>
          logsOf new = [compensatingLog (saga (coord m)) i] \<and>
          i < length (returnedValuesFromFunc (coord m)) \<and> i < length (toCompensate (coord m))))"
  by (auto simp: compensateStep_def andThen_def getC_def index_def ret_def raise_def lift_def
      appendLog_eq callValue_eq checkErr_def newLog_def Let_def case_prod_beta
      compensatingLog_def compensationCall_def addParams_butlast
      split: sum.splits option.splits if_splits obj.splits
      simp del: isReturnError.simps callValue.simps addParams.simps)

definition compensations :: "'w ExecutionCoordinator \<Rightarrow> nat \<Rightarrow> nat \<Rightarrow> 'w event list \<Rightarrow> bool" where
  "compensations c n j new =
     (j \<le> n \<and> callsOf new = map (compensationCall c) (rev [j..<n]) \<and> resultsOf new = [] \<and>
      (\<exists>j2. j2 \<le> j \<and> j \<le> Suc j2 \<and> logsOf new = map (compensatingLog (saga c)) (rev [j2..<n])) \<and>
      (j < n \<longrightarrow> n \<le> length (returnedValuesFromFunc c) \<and> n \<le> length (toCompensate c)))"

lemma compensations_none: "compensations c n n []"
  unfolding compensations_def by (auto intro: exI [of _ n])

lemma compensations_logged: "compensations c (Suc n) (Suc n) new"
  if "callsOf new = []" "resultsOf new = []" "logsOf new = [compensatingLog (saga c) n]"
  unfolding compensations_def using that by (auto intro: exI [of _ n])

lemma compensations_called: "compensations c (Suc n) n new"
  if "callsOf new = [compensationCall c n]" "resultsOf new = []"
    "logsOf new = [compensatingLog (saga c) n]"
    "n < length (returnedValuesFromFunc c)" "n < length (toCompensate c)"
  unfolding compensations_def using that by (auto intro: exI [of _ n])

lemma compensations_more:
  assumes "compensations c n j new2"
    and "callsOf new1 = [compensationCall c n]" "resultsOf new1 = []"
    and "logsOf new1 = [compensatingLog (saga c) n]"
    and "n < length (returnedValuesFromFunc c)" "n < length (toCompensate c)"
  shows "compensations c (Suc n) j (new1 @ new2)"
proof -
  from assms(1) obtain j2 where j: "j \<le> n" "j2 \<le> j" "j \<le> Suc j2"
    and c: "callsOf new2 = map (compensationCall c) (rev [j..<n])" "resultsOf new2 = []"
      "logsOf new2 = map (compensatingLog (saga c)) (rev [j2..<n])"
    unfolding compensations_def by blast
  from j have u: "[j..<Suc n] = [j..<n] @ [n]" "[j2..<Suc n] = [j2..<n] @ [n]" by simp_all
  have "callsOf (new1 @ new2) = map (compensationCall c) (rev [j..<Suc n])"
    using assms(2) c(1) by (simp add: callsOf_append u del: upt_Suc)
  moreover have "logsOf (new1 @ new2) = map (compensatingLog (saga c)) (rev [j2..<Suc n])"
    using assms(4) c(3) by (simp add: logsOf_append u del: upt_Suc)
  moreover have "resultsOf (new1 @ new2) = []"
    using assms(3) c(2) by (simp add: resultsOf_append)
  ultimately show ?thesis
    unfolding compensations_def using j assms(5,6) by auto
qed

lemma compensateFrom_effect:
  "\<exists>new j. history (snd (compensateFrom n m)) = history m @ new \<and>
     coord (snd (compensateFrom n m)) = coord m \<and>
     compensations (coord m) n j new \<and>
     (fst (compensateFrom n m) = Inr () \<longrightarrow> j = 0)"
proof (induction n arbitrary: m)
  case 0
  have "compensations (coord m) 0 0 []" by (rule compensations_none)
  then show ?case by (auto simp: ret_def)
next
  case (Suc n)
  let ?s = "compensateStep n m"
  let ?c = "coord m"
  from compensateStep_effect [of n m]
  obtain new1 where h1: "history (snd ?s) = history m @ new1" and c1: "coord (snd ?s) = ?c"
    and r1: "resultsOf new1 = []"
    and d: "(callsOf new1 = [] \<and> (logsOf new1 = [] \<or> logsOf new1 = [compensatingLog (saga ?c) n]) \<and>
              fst ?s \<noteq> Inr ())
            \<or> (callsOf new1 = [compensationCall ?c n] \<and>
                logsOf new1 = [compensatingLog (saga ?c) n] \<and>
                n < length (returnedValuesFromFunc ?c) \<and> n < length (toCompensate ?c))"
    by blast
  show ?case
  proof (cases "fst ?s")
    case (Inl p)
    then have e: "compensateFrom (Suc n) m = (Inl p, snd ?s)"
      by (simp add: andThen_Inl)
    from d have "\<exists>j. compensations ?c (Suc n) j new1"
    proof (elim disjE conjE)
      assume "callsOf new1 = []" "logsOf new1 = []"
      with r1 have "new1 = []" by (cases new1 rule: logsOf.cases) auto
      then show ?thesis using compensations_none [of ?c "Suc n"] by blast
    next
      assume "callsOf new1 = []" "logsOf new1 = [compensatingLog (saga ?c) n]"
      with r1 show ?thesis using compensations_logged [of new1 ?c n] by blast
    next
      assume "callsOf new1 = [compensationCall ?c n]" "logsOf new1 = [compensatingLog (saga ?c) n]"
        "n < length (returnedValuesFromFunc ?c)" "n < length (toCompensate ?c)"
      with r1 show ?thesis using compensations_called [of new1 ?c n] by blast
    qed
    with e h1 c1 show ?thesis by auto
  next
    case (Inr u)
    then have e: "compensateFrom (Suc n) m = compensateFrom n (snd ?s)"
      by (simp add: andThen_Inr)
    from Inr d have b: "callsOf new1 = [compensationCall ?c n]"
      "logsOf new1 = [compensatingLog (saga ?c) n]"
      "n < length (returnedValuesFromFunc ?c)" "n < length (toCompensate ?c)"
      by auto
    from Suc.IH [of "snd ?s"] c1
    obtain new2 j where h2: "history (snd (compensateFrom n (snd ?s))) = history (snd ?s) @ new2"
      and c2: "coord (snd (compensateFrom n (snd ?s))) = ?c"
      and k2: "compensations ?c n j new2"
      and z: "fst (compensateFrom n (snd ?s)) = Inr () \<longrightarrow> j = 0"
      by auto
    from compensations_more [OF k2 b(1) r1 b(2,3,4)]
    have "compensations ?c (Suc n) j (new1 @ new2)" .
    with e h1 h2 c2 z show ?thesis by auto
  qed
qed

lemma compensationCall_aborted: "compensationCall (c\<lparr>aborted := b\<rparr>) = compensationCall c"
  by (rule ext) (simp add: compensationCall_def)

lemma compensations_aborted: "compensations (c\<lparr>aborted := b\<rparr>) n j new = compensations c n j new"
  by (simp add: compensations_def compensationCall_aborted)

lemma abort_structure:
  "\<exists>l e rest j. history (snd (abort m)) = history m @ Append l e # rest \<and>
     (Log_Type l, StepNumber l, StepName l) =
       (LogTypeSagaAbort, Some (length (toCompensate (coord m))), None) \<and>
     compensations (coord m) (length (toCompensate (coord m))) j rest \<and>
     returnedValuesFromFunc (coord (snd (abort m))) = returnedValuesFromFunc (coord m) \<and>
     toCompensate (coord (snd (abort m))) = toCompensate (coord m) \<and>
     err (coord (snd (abort m))) = err (coord m) \<and>
     (fst (abort m) = Inr () \<longrightarrow> j = 0 \<and> aborted (coord (snd (abort m))))"
proof -
  let ?n = "length (toCompensate (coord m))"
  let ?l = "newLog LogTypeSagaAbort (Some ?n) None m"
  let ?x = "logStore (coord m) ?l (world m)"
  let ?m1 = "m\<lparr>world := snd ?x, history := history m @ [Append ?l (fst ?x)]\<rparr>"
  let ?m2 = "?m1\<lparr>coord := (coord m)\<lparr>aborted := True\<rparr>\<rparr>"
  have k: "(Log_Type ?l, StepNumber ?l, StepName ?l) = (LogTypeSagaAbort, Some ?n, None)"
    by (simp add: newLog_def)
  have ab: "abort m = andThen (appendLog LogTypeSagaAbort (Some ?n) None)
              (\<lambda>_. andThen (setC (\<lambda>c. c\<lparr>aborted := True\<rparr>)) (\<lambda>_. compensateFrom ?n)) m"
    by (simp add: abort_def andThen_getC Let_def)
  have a: "appendLog LogTypeSagaAbort (Some ?n) None m = (checkErr (fst ?x) [], ?m1)"
    by (rule appendLog_eq)
  show ?thesis
  proof (cases "checkErr (fst ?x) []")
    case (Inl p)
    with ab a have "abort m = (Inl p, ?m1)" by (simp add: andThen_Inl)
    with k compensations_none [of "coord m" ?n] show ?thesis by auto
  next
    case (Inr u)
    with ab a have e: "abort m = compensateFrom ?n ?m2"
      by (simp add: andThen_Inr andThen_setC)
    from compensateFrom_effect [of ?n ?m2]
    obtain new j where h: "history (snd (compensateFrom ?n ?m2)) = history ?m2 @ new"
      and c: "coord (snd (compensateFrom ?n ?m2)) = coord ?m2"
      and k2: "compensations (coord ?m2) ?n j new"
      and z: "fst (compensateFrom ?n ?m2) = Inr () \<longrightarrow> j = 0"
      by blast
    from k2 have "compensations (coord m) ?n j new"
      by (simp add: compensations_aborted)
    with e h c z k show ?thesis by auto
  qed
qed

lemma getFuncValue_Inr: "getFuncValue f = Inr fv \<Longrightarrow> fv = f \<and> (\<exists>ins body. f = Fn ins body)"
  by (cases f) (auto split: if_splits)

definition plain :: "'w Saga \<Rightarrow> nat \<Rightarrow> 'w event list \<Rightarrow> bool" where
  "plain sg cx h =
     (\<exists>n. callsOf h = actionCalls cx sg n \<and> length (resultsOf h) = n \<and>
        (\<forall>x\<in>set (logsOf h). fst x \<noteq> LogTypeSagaAbort \<and> fst x \<noteq> LogTypeSagaStepCompensate))"

definition unwound :: "'w Saga \<Rightarrow> nat \<Rightarrow> 'w event list \<Rightarrow> bool" where
  "unwound sg cx h =
     (\<exists>pre l e post n j rs.
        h = pre @ Append l e # post \<and>
        (Log_Type l, StepNumber l, StepName l) = (LogTypeSagaAbort, Some n, None) \<and>
        callsOf pre = actionCalls cx sg n \<and> resultsOf pre = map Inr rs \<and> length rs = n \<and>
        (\<forall>x\<in>set (logsOf pre). fst x \<noteq> LogTypeSagaAbort \<and> fst x \<noteq> LogTypeSagaStepCompensate) \<and>
        j \<le> n \<and>
        callsOf post =
          map (\<lambda>i. (Compensation i, CompensateFunc (steps sg ! i), CtxV cx # butlast (rs ! i)))
            (rev [j..<n]) \<and>
        resultsOf post = [] \<and>
        (\<forall>x\<in>set (logsOf post). fst x \<noteq> LogTypeSagaAbort))"

lemma forward_plain: "forward sg cx n m \<Longrightarrow> plain sg cx (history m)"
  unfolding plain_def forward_def
  by (intro exI [of _ n]) (auto simp: stepLogs_def)

lemma plain_Append:
  "plain sg cx h \<Longrightarrow> Log_Type l \<noteq> LogTypeSagaAbort \<Longrightarrow> Log_Type l \<noteq> LogTypeSagaStepCompensate \<Longrightarrow>
     plain sg cx (h @ [Append l e])"
  unfolding plain_def by (auto simp: logsOf_append callsOf_append resultsOf_append)

lemma unwound_Append:
  assumes "unwound sg cx h" "Log_Type l' \<noteq> LogTypeSagaAbort"
  shows "unwound sg cx (h @ [Append l' e'])"
proof -
  from assms(1) obtain pre l e post n j rs where u:
    "h = pre @ Append l e # post"
    "(Log_Type l, StepNumber l, StepName l) = (LogTypeSagaAbort, Some n, None)"
    "callsOf pre = actionCalls cx sg n" "resultsOf pre = map Inr rs" "length rs = n"
    "\<forall>x\<in>set (logsOf pre). fst x \<noteq> LogTypeSagaAbort \<and> fst x \<noteq> LogTypeSagaStepCompensate"
    "j \<le> n"
    "callsOf post =
          map (\<lambda>i. (Compensation i, CompensateFunc (steps sg ! i), CtxV cx # butlast (rs ! i)))
            (rev [j..<n])"
    "resultsOf post = []"
    "\<forall>x\<in>set (logsOf post). fst x \<noteq> LogTypeSagaAbort"
    unfolding unwound_def by blast
  let ?post = "post @ [Append l' e']"
  have "h @ [Append l' e'] = pre @ Append l e # ?post" using u(1) by simp
  moreover have "callsOf ?post =
          map (\<lambda>i. (Compensation i, CompensateFunc (steps sg ! i), CtxV cx # butlast (rs ! i)))
            (rev [j..<n])"
    using u(8) by (simp add: callsOf_append)
  moreover have "resultsOf ?post = []" using u(9) by (simp add: resultsOf_append)
  moreover have "\<forall>x\<in>set (logsOf ?post). fst x \<noteq> LogTypeSagaAbort"
    using u(10) assms(2) by (auto simp: logsOf_append)
  ultimately show ?thesis
    unfolding unwound_def using u(2-7) by blast
qed

lemma execStep_all:
  assumes s: "static m = (sg, st, cx, eid, clk)"
    and fw: "forward sg cx n m"
    and n: "n < length (steps sg)"
  shows "(fst (execStep n m) = Inr () \<and> forward sg cx (Suc n) (snd (execStep n m))) \<or>
         ((\<exists>p. fst (execStep n m) = Inl p) \<and> plain sg cx (history (snd (execStep n m))) \<and>
          err (coord (snd (execStep n m))) = None) \<or>
         (unwound sg cx (history (snd (execStep n m))) \<and> err (coord (snd (execStep n m))) \<noteq> None \<and>
          (fst (execStep n m) = Inr () \<longrightarrow> aborted (coord (snd (execStep n m)))))"
proof -
  note sd = staticD [OF s]
  note run = forward_def andThen_def getC_def setC_def index_def ret_def lift_def Let_def
  let ?s = "steps sg ! n"
  let ?l = "newLog LogTypeSagaStepExec (Some n) (Some (Step_Name ?s)) m"
  let ?e0 = "fst (st ?l (world m))"
  let ?m1 = "m\<lparr>world := snd (st ?l (world m)), history := history m @ [Append ?l ?e0]\<rparr>"
  have a: "appendLog LogTypeSagaStepExec (Some n) (Some (Step_Name ?s)) m = (checkErr ?e0 [], ?m1)"
    using appendLog_eq [of LogTypeSagaStepExec "Some n" "Some (Step_Name ?s)" m] sd by simp
  have lt: "Log_Type ?l \<noteq> LogTypeSagaAbort" "Log_Type ?l \<noteq> LogTypeSagaStepCompensate"
    by (simp_all add: newLog_def)
  have e0: "err (coord m) = None" using fw by (simp add: forward_def)
  have p1: "plain sg cx (history ?m1)"
    using plain_Append [OF forward_plain [OF fw] lt] by simp
  show ?thesis
  proof (cases ?e0)
    case (Some e)
    have "execStep n m = (Inl (LogPanicln [] e), ?m1)"
      unfolding execStep_def using fw n sd a Some
      by (simp add: run checkErr_def del: isReturnError.simps getFuncValue.simps)
    with p1 e0 show ?thesis by simp
  next
    case None
    with a have a': "appendLog LogTypeSagaStepExec (Some n) (Some (Step_Name ?s)) m = (Inr (), ?m1)"
      by (simp add: checkErr_def)
    show ?thesis
    proof (cases "getFuncValue (Func ?s)")
      case (Inl p)
      have "execStep n m = (Inl p, ?m1)"
        unfolding execStep_def using fw n sd a' Inl
        by (simp add: run del: isReturnError.simps getFuncValue.simps)
      with p1 e0 show ?thesis by simp
    next
      case (Inr fv)
      from getFuncValue_Inr [OF Inr] obtain ins body where f: "fv = Func ?s" "Func ?s = Fn ins body"
        by blast
      let ?r = "fst (body [CtxV cx] (world ?m1))"
      let ?m2 = "?m1\<lparr>world := snd (body [CtxV cx] (world ?m1)),
                    history := history ?m1 @ [Invoke (Action n) (Func ?s) [CtxV cx] ?r]\<rparr>"
      have c: "callValue (Action n) (Func ?s) [CtxV cx] ?m1 = (?r, ?m2)"
        using f(2) by (simp add: callValue_eq)
      have g: "getFuncValue (Func ?s) = Inr (Func ?s)" using Inr f(1) by simp
      have calls2: "callsOf (history ?m2) = actionCalls cx sg (Suc n)"
        using fw by (simp add: forward_def callsOf_append actionCalls_def)
      have logs2: "logsOf (history ?m2) =
          (LogTypeStartSaga, None, None) # stepLogs LogTypeSagaStepExec sg [0..<Suc n]"
        using fw by (simp add: forward_def logsOf_append stepLogs_def newLog_def)
      have res2: "resultsOf (history ?m2) = map Inr (returnedValuesFromFunc (coord m)) @ [?r]"
        using fw by (simp add: forward_def resultsOf_append)
      have p2: "plain sg cx (history ?m2)"
        unfolding plain_def using calls2 logs2 res2 fw
        by (intro exI [of _ "Suc n"]) (auto simp: stepLogs_def forward_def)
      show ?thesis
      proof (cases ?r)
        case (Inl p)
        have "execStep n m = (Inl p, ?m2)"
          unfolding execStep_def using fw n sd a' g c Inl
          by (simp add: run del: isReturnError.simps getFuncValue.simps callValue.simps)
        with p2 e0 show ?thesis by simp
      next
        case resp: (Inr resp)
        show ?thesis
        proof (cases "getFuncValue (CompensateFunc ?s)")
          case (Inl p)
          have "execStep n m = (Inl p, ?m2)"
            unfolding execStep_def using fw n sd a' g c resp Inl
            by (simp add: run del: isReturnError.simps getFuncValue.simps callValue.simps)
          with p2 e0 show ?thesis by simp
        next
          case cv: (Inr cv)
          from getFuncValue_Inr [OF cv] have gc: "getFuncValue (CompensateFunc ?s) = Inr (CompensateFunc ?s)"
            using cv by simp
          let ?tc = "map (\<lambda>j. CompensateFunc (steps sg ! j)) [0..<n] @ [CompensateFunc ?s]"
          let ?rv = "returnedValuesFromFunc (coord m) @ [resp]"
          let ?c3 = "(coord m)\<lparr>toCompensate := ?tc, returnedValuesFromFunc := ?rv\<rparr>"
          let ?m3 = "?m2\<lparr>coord := ?c3\<rparr>"
          show ?thesis
          proof (cases "isReturnError resp")
            case (Inl p)
            have "execStep n m = (Inl p, ?m3)"
              unfolding execStep_def using fw n sd a' g c resp gc Inl
              by (simp add: run del: isReturnError.simps getFuncValue.simps callValue.simps)
            with p2 e0 show ?thesis by simp
          next
            case e: (Inr e)
            show ?thesis
            proof (cases e)
              case None
              have "execStep n m = (Inr (), ?m3)"
                unfolding execStep_def using fw n sd a' g c resp gc e None
                by (simp add: run del: isReturnError.simps getFuncValue.simps callValue.simps)
              moreover have "forward sg cx (Suc n) ?m3"
                using fw calls2 logs2 res2 resp
                by (simp add: forward_def)
              ultimately show ?thesis by simp
            next
              case (Some er)
              let ?m4 = "?m2\<lparr>coord := ?c3\<lparr>err := Some er\<rparr>\<rparr>"
              have ex: "execStep n m = abort ?m4"
                unfolding execStep_def using fw n sd a' g c resp gc e Some
                by (simp add: run del: isReturnError.simps getFuncValue.simps callValue.simps)
              from abort_structure [of ?m4]
              obtain l le rest j where h: "history (snd (abort ?m4)) = history ?m4 @ Append l le # rest"
                and k: "(Log_Type l, StepNumber l, StepName l) = (LogTypeSagaAbort, Some (Suc n), None)"
                and cs: "compensations (coord ?m4) (Suc n) j rest"
                and z: "fst (abort ?m4) = Inr () \<longrightarrow> j = 0 \<and> aborted (coord (snd (abort ?m4)))"
                and er: "err (coord (snd (abort ?m4))) = err (coord ?m4)"
                by auto
              have tc: "?tc ! i = CompensateFunc (steps sg ! i)" if "i \<le> n" for i
                using that by (rule nth_map_upt_snoc)
              from cs obtain j2 where j: "j \<le> Suc n" and rr: "resultsOf rest = []"
                and cr: "callsOf rest = map (compensationCall (coord ?m4)) (rev [j..<Suc n])"
                and lr: "logsOf rest = map (compensatingLog (saga (coord ?m4))) (rev [j2..<Suc n])"
                unfolding compensations_def by blast
              have cr': "callsOf rest =
                  map (\<lambda>i. (Compensation i, CompensateFunc (steps sg ! i), CtxV cx # butlast (?rv ! i)))
                    (rev [j..<Suc n])"
                unfolding cr
                by (rule map_cong [OF refl]) (simp add: compensationCall_def tc sd del: upt_Suc)
              have lr': "\<forall>x\<in>set (logsOf rest). fst x \<noteq> LogTypeSagaAbort"
                unfolding lr by (auto simp: compensatingLog_def simp del: upt_Suc)
              have "unwound sg cx (history ?m4 @ Append l le # rest)"
                unfolding unwound_def
              proof (intro exI conjI)
                show "history ?m4 @ Append l le # rest = history ?m4 @ Append l le # rest" ..
                show "(Log_Type l, StepNumber l, StepName l) = (LogTypeSagaAbort, Some (Suc n), None)"
                  by (rule k)
                show "callsOf (history ?m4) = actionCalls cx sg (Suc n)" using calls2 by simp
                show "resultsOf (history ?m4) = map Inr ?rv" using res2 resp by simp
                show "length ?rv = Suc n" using fw by (simp add: forward_def)
                show "\<forall>x\<in>set (logsOf (history ?m4)).
                        fst x \<noteq> LogTypeSagaAbort \<and> fst x \<noteq> LogTypeSagaStepCompensate"
                  using logs2 by (auto simp: stepLogs_def)
                show "j \<le> Suc n" by (rule j)
                show "callsOf rest =
                  map (\<lambda>i. (Compensation i, CompensateFunc (steps sg ! i), CtxV cx # butlast (?rv ! i)))
                    (rev [j..<Suc n])" by (rule cr')
                show "resultsOf rest = []" by (rule rr)
                show "\<forall>x\<in>set (logsOf rest). fst x \<noteq> LogTypeSagaAbort" by (rule lr')
              qed
              with ex h z er show ?thesis by simp
            qed
          qed
        qed
      qed
    qed
  qed
qed

lemma playFrom_all:
  assumes s: "static m = (sg, st, cx, eid, clk)"
    and fw: "forward sg cx i m"
    and i: "i \<le> length (steps sg)"
  shows "(fst (playFrom i m) = Inr () \<and> forward sg cx (length (steps sg)) (snd (playFrom i m))) \<or>
         ((\<exists>p. fst (playFrom i m) = Inl p) \<and> plain sg cx (history (snd (playFrom i m))) \<and>
          err (coord (snd (playFrom i m))) = None) \<or>
         (unwound sg cx (history (snd (playFrom i m))) \<and> err (coord (snd (playFrom i m))) \<noteq> None)"
  using assms
proof (induction "length (steps sg) - i" arbitrary: i m)
  case 0
  then have "i = length (steps sg)" by simp
  with 0 show ?case by (simp add: playFrom_done staticD(1))
next
  case (Suc k)
  then have i: "i < length (steps sg)" by simp
  note sd = staticD [OF Suc.prems(1)]
  let ?e = "execStep i m"
  have st': "static (snd ?e) = (sg, st, cx, eid, clk)"
    using keepsD [OF keeps_execStep, of i m] Suc.prems(1) by simp
  from execStep_all [OF Suc.prems(1,2) i]
  consider (ok) "fst ?e = Inr ()" "forward sg cx (Suc i) (snd ?e)"
    | (panic) p where "fst ?e = Inl p" "plain sg cx (history (snd ?e))" "err (coord (snd ?e)) = None"
    | (abort) "unwound sg cx (history (snd ?e))" "fst ?e = Inr () \<longrightarrow> aborted (coord (snd ?e))"
        "err (coord (snd ?e)) \<noteq> None"
    by blast
  then show ?case
  proof cases
    case ok
    have "playFrom i m = playFrom (Suc i) (snd ?e)"
      using i sd ok(1) by (intro playFrom_step) simp_all
    moreover have "length (steps sg) - Suc i = k" using Suc.hyps(2) by simp
    from Suc.hyps(1) [OF this [symmetric] st' ok(2)] i
    have "(fst (playFrom (Suc i) (snd ?e)) = Inr () \<and>
            forward sg cx (length (steps sg)) (snd (playFrom (Suc i) (snd ?e)))) \<or>
         ((\<exists>p. fst (playFrom (Suc i) (snd ?e)) = Inl p) \<and>
            plain sg cx (history (snd (playFrom (Suc i) (snd ?e)))) \<and>
            err (coord (snd (playFrom (Suc i) (snd ?e)))) = None) \<or>
         (unwound sg cx (history (snd (playFrom (Suc i) (snd ?e)))) \<and>
            err (coord (snd (playFrom (Suc i) (snd ?e)))) \<noteq> None)"
      by simp
    ultimately show ?thesis by simp
  next
    case panic
    have "playFrom i m = (Inl p, snd ?e)"
      using i sd panic(1) by (intro playFrom_panic) simp_all
    with panic(2,3) show ?thesis by simp
  next
    case abort
    show ?thesis
    proof (cases "fst ?e")
      case (Inl p)
      have "playFrom i m = (Inl p, snd ?e)"
        using i sd Inl by (intro playFrom_panic) simp_all
      with abort(1,3) show ?thesis by simp
    next
      case (Inr u)
      then have "playFrom i m = playFrom (Suc i) (snd ?e)"
        using i sd by (intro playFrom_step) simp_all
      also have "\<dots> = (Inr (), snd ?e)"
        using abort(2) Inr by (intro playFrom_aborted) simp
      finally show ?thesis using abort(1,3) by simp
    qed
  qed
qed

lemma Play_unfold:
  "Play m =
     (let a = appendLog LogTypeStartSaga None None m in
      case fst a of Inl p \<Rightarrow> (Inl p, snd a)
      | Inr u \<Rightarrow>
          (let b = playFrom 0 (snd a) in
           case fst b of Inl p \<Rightarrow> (Inl p, snd b)
           | Inr v \<Rightarrow>
               (let c = appendLog LogTypeSagaComplete None None (snd b) in
                case fst c of Inl p \<Rightarrow> (Inl p, snd c)
                | Inr z \<Rightarrow> (Inr \<lparr>Err = err (coord (snd c))\<rparr>, snd c))))"
  by (simp add: Play_def andThen_def getC_def ret_def Let_def case_prod_beta
      split: sum.splits)

lemma Play_all:
  "(plain sg cx (history (snd (Play (start cx sg st eid w clk)))) \<and>
    err (coord (snd (Play (start cx sg st eid w clk)))) = None) \<or>
   (unwound sg cx (history (snd (Play (start cx sg st eid w clk)))) \<and>
    err (coord (snd (Play (start cx sg st eid w clk)))) \<noteq> None)"
proof -
  let ?m0 = "start cx sg st eid w clk"
  let ?l = "newLog LogTypeStartSaga None None ?m0"
  let ?e0 = "fst (st ?l w)"
  let ?m1 = "?m0\<lparr>world := snd (st ?l w), history := [Append ?l ?e0]\<rparr>"
  have a: "appendLog LogTypeStartSaga None None ?m0 = (checkErr ?e0 [], ?m1)"
    using appendLog_eq [of LogTypeStartSaga None None ?m0]
    by (simp add: start_def NewCoordinator_def)
  have s1: "static ?m1 = (sg, st, cx, eid, clk)"
    by (simp add: static_def start_def NewCoordinator_def)
  have f1: "forward sg cx 0 ?m1"
    by (simp add: forward_def start_def NewCoordinator_def newLog_def stepLogs_def actionCalls_def)
  show ?thesis
  proof (cases "checkErr ?e0 []")
    case (Inl p)
    with a have "Play ?m0 = (Inl p, ?m1)" by (simp add: Play_unfold)
    with forward_plain [OF f1] f1 show ?thesis by (simp add: forward_def)
  next
    case (Inr u)
    let ?b = "playFrom 0 ?m1"
    let ?lc = "newLog LogTypeSagaComplete None None (snd ?b)"
    let ?ec = "fst (logStore (coord (snd ?b)) ?lc (world (snd ?b)))"
    have c: "history (snd (appendLog LogTypeSagaComplete None None (snd ?b))) =
               history (snd ?b) @ [Append ?lc ?ec]"
        "coord (snd (appendLog LogTypeSagaComplete None None (snd ?b))) = coord (snd ?b)"
      by (simp_all add: appendLog_eq)
    have lt: "Log_Type ?lc \<noteq> LogTypeSagaAbort" "Log_Type ?lc \<noteq> LogTypeSagaStepCompensate"
      by (simp_all add: newLog_def)
    have fp: "plain sg cx (history (snd ?b)) \<and> err (coord (snd ?b)) = None"
      if "forward sg cx (length (steps sg)) (snd ?b)"
      using forward_plain [OF that] that by (simp add: forward_def)
    from playFrom_all [OF s1 f1] fp
    have d: "(plain sg cx (history (snd ?b)) \<and> err (coord (snd ?b)) = None) \<or>
             (unwound sg cx (history (snd ?b)) \<and> err (coord (snd ?b)) \<noteq> None)"
      by blast
    show ?thesis
    proof (cases "fst ?b")
      case (Inl p)
      with a Inr have P: "Play ?m0 = (Inl p, snd ?b)" by (simp add: Play_unfold)
      with d show ?thesis by simp
    next
      case v: (Inr v)
      with a Inr have P: "history (snd (Play ?m0)) = history (snd ?b) @ [Append ?lc ?ec]"
          "coord (snd (Play ?m0)) = coord (snd ?b)"
        using c by (simp_all add: Play_unfold Let_def split: sum.splits)
      from d show ?thesis
        unfolding P using plain_Append [OF _ lt] unwound_Append [OF _ lt(1)] by blast
    qed
  qed
qed

subsection \<open>Events of a type that a program does not append\<close>

definition addsNo :: "LogType \<Rightarrow> ('w, 'a) prog \<Rightarrow> 'w machine \<Rightarrow> bool" where
  "addsNo ty f m =
     (\<exists>new. history (snd (f m)) = history m @ new \<and>
        (\<forall>l e. Append l e \<in> set new \<longrightarrow> Log_Type l \<noteq> ty))"

lemma addsNo_silent: "history (snd (f m)) = history m \<Longrightarrow> addsNo ty f m"
  by (simp add: addsNo_def)

lemma addsNo_andThen:
  assumes f: "addsNo ty f m"
    and g: "\<And>x. fst (f m) = Inr x \<Longrightarrow> addsNo ty (g x) (snd (f m))"
  shows "addsNo ty (andThen f g) m"
proof (cases "fst (f m)")
  case (Inl p)
  then have "andThen f g m = (Inl p, snd (f m))" by (rule andThen_Inl)
  with f show ?thesis by (simp add: addsNo_def)
next
  case (Inr x)
  then have a: "andThen f g m = g x (snd (f m))" by (rule andThen_Inr)
  from f obtain new1 where n1: "history (snd (f m)) = history m @ new1"
    "\<forall>l e. Append l e \<in> set new1 \<longrightarrow> Log_Type l \<noteq> ty"
    unfolding addsNo_def by blast
  from g [OF Inr] obtain new2 where n2: "history (snd (g x (snd (f m)))) = history (snd (f m)) @ new2"
    "\<forall>l e. Append l e \<in> set new2 \<longrightarrow> Log_Type l \<noteq> ty"
    unfolding addsNo_def by blast
  have "history (snd (andThen f g m)) = history m @ (new1 @ new2)"
    using a n1(1) n2(1) by simp
  moreover have "\<forall>l e. Append l e \<in> set (new1 @ new2) \<longrightarrow> Log_Type l \<noteq> ty"
    using n1(2) n2(2) by auto
  ultimately show ?thesis unfolding addsNo_def by blast
qed

lemma addsNo_appendLog: "ty' \<noteq> ty \<Longrightarrow> addsNo ty (appendLog ty' num nm) m"
  unfolding addsNo_def
  by (intro exI [of _ "[Append (newLog ty' num nm m) (fst (logStore (coord m) (newLog ty' num nm m) (world m)))]"])
     (simp add: appendLog_eq newLog_def)

lemma addsNo_callValue: "addsNo ty (callValue st f params) m"
  unfolding addsNo_def
  by (cases f) (auto simp: callValue_eq simp del: callValue.simps)

lemma addsNo_compensateStep: "ty \<noteq> LogTypeSagaStepCompensate \<Longrightarrow> addsNo ty (compensateStep i) m"
  unfolding compensateStep_def
  by (intro addsNo_andThen addsNo_appendLog addsNo_callValue)
     (auto intro!: addsNo_silent
        simp: getC_def index_def ret_def raise_def lift_def split: option.split)

lemma addsNo_compensateFrom: "ty \<noteq> LogTypeSagaStepCompensate \<Longrightarrow> addsNo ty (compensateFrom n) m"
proof (induction n arbitrary: m)
  case 0
  show ?case by (intro addsNo_silent) (simp add: ret_def)
next
  case (Suc n)
  show ?case
    by (subst compensateFrom.simps)
       (intro addsNo_andThen addsNo_compensateStep Suc.IH Suc.prems)
qed

lemma addsNo_abort:
  "ty \<noteq> LogTypeSagaStepCompensate \<Longrightarrow> ty \<noteq> LogTypeSagaAbort \<Longrightarrow> addsNo ty abort m"
  unfolding abort_def Let_def
  by (intro addsNo_andThen addsNo_appendLog addsNo_compensateFrom)
     (auto intro!: addsNo_silent simp: getC_def setC_def)

lemma addsNo_execStep:
  assumes "ty \<noteq> LogTypeSagaStepCompensate" "ty \<noteq> LogTypeSagaAbort" "ty \<noteq> LogTypeSagaStepExec"
  shows "addsNo ty (execStep i) m"
proof -
  have tail: "addsNo ty (case e of Some er \<Rightarrow> andThen (setC (\<lambda>c. c\<lparr>err := Some er\<rparr>)) (\<lambda>_. abort)
                     | None \<Rightarrow> ret ()) m'" for e :: "error option" and m' :: "'a machine"
  proof (cases e)
    case None
    then show ?thesis by (simp add: addsNo_silent ret_def)
  next
    case (Some er)
    have "addsNo ty (andThen (setC (\<lambda>c. c\<lparr>err := Some er\<rparr>)) (\<lambda>_. abort)) m'"
      by (intro addsNo_andThen addsNo_abort assms) (simp add: addsNo_silent setC_def)
    with Some show ?thesis by simp
  qed
  show ?thesis
  proof (cases "aborted (coord m)")
    case True
    then show ?thesis by (intro addsNo_silent) (simp add: execStep_aborted)
  next
    case False
    let ?body = "andThen (index (steps (saga (coord m))) i) (\<lambda>st.
       andThen (appendLog LogTypeSagaStepExec (Some i) (Some (Step_Name st))) (\<lambda>_.
       andThen getC (\<lambda>c.
       andThen (index (steps (saga c)) i) (\<lambda>st.
       let f = Func st; compensate = CompensateFunc st; params = [CtxV (ctx c)] in
       andThen (lift (getFuncValue f)) (\<lambda>fv.
       andThen (callValue (Action i) fv params) (\<lambda>resp.
       andThen (lift (getFuncValue compensate)) (\<lambda>cv.
       andThen (setC (\<lambda>c. c\<lparr>toCompensate := toCompensate c @ [cv]\<rparr>)) (\<lambda>_.
       andThen (setC (\<lambda>c. c\<lparr>returnedValuesFromFunc := returnedValuesFromFunc c @ [resp]\<rparr>)) (\<lambda>_.
       andThen (lift (isReturnError resp)) (\<lambda>e.
         case e of
           Some er \<Rightarrow> andThen (setC (\<lambda>c. c\<lparr>err := Some er\<rparr>)) (\<lambda>_. abort)
         | None \<Rightarrow> ret ()))))))))))"
    from False have e: "execStep i m = ?body m"
      by (simp add: execStep_def andThen_getC)
    have s: "addsNo ty getC m'" "addsNo ty (index xs j) m'" "addsNo ty (lift r) m'"
        "addsNo ty (setC g) m'"
      for m' :: "'a machine" and xs :: "'b list" and j and r :: "panic + 'c" and g
      by (auto intro!: addsNo_silent simp: getC_def index_def ret_def raise_def lift_def setC_def)
    have "addsNo ty ?body m"
      unfolding Let_def
      by (intro addsNo_andThen addsNo_appendLog addsNo_callValue tail s)
         (simp add: assms(3) [symmetric])
    with e show ?thesis by (simp add: addsNo_def)
  qed
qed

lemma addsNo_playFrom:
  assumes "ty \<noteq> LogTypeSagaStepCompensate" "ty \<noteq> LogTypeSagaAbort" "ty \<noteq> LogTypeSagaStepExec"
  shows "addsNo ty (playFrom i) m"
proof (induction i m rule: playFrom.induct)
  case (1 i m)
  show ?case
  proof (cases "i < length (steps (saga (coord m)))")
    case False
    then show ?thesis by (intro addsNo_silent) (simp add: playFrom_done)
  next
    case True
    have "addsNo ty (andThen (execStep i) (\<lambda>_. playFrom (i + 1))) m"
    proof (rule addsNo_andThen [OF addsNo_execStep [OF assms]])
      fix x assume "fst (execStep i m) = Inr x"
      then have "(Inr x, snd (execStep i m)) = execStep i m"
        by (cases "execStep i m") simp
      from "1.IH" [OF True this refl]
      show "addsNo ty (playFrom (i + 1)) (snd (execStep i m))" .
    qed
    moreover have "playFrom i m = andThen (execStep i) (\<lambda>_. playFrom (i + 1)) m"
      using True playFrom_andThen [of i m] by simp
    ultimately show ?thesis by (simp add: addsNo_def)
  qed
qed


text \<open>
  \<open>isCompletion\<close>: the event is the append of a log of type \<open>LogTypeSagaComplete\<close>.
  \<open>loopReturns m\<close>: \<open>Play\<close>, run from \<open>m\<close>, gets to its last append: the append of the
  start event and the loop over the steps return, that is, no append, no call and no
  compensation of the loop panics.  The loop returns in every run in which \<open>Play\<close>
  returns, so when every action returns a nil error (\<open>loop_returns_on_success\<close>) and
  when an action returns an error and the executed steps are compensated
  (\<open>loop_returns_on_compensation\<close>).
\<close>

fun isCompletion :: "'w event \<Rightarrow> bool" where
  "isCompletion (Append l e) = (Log_Type l = LogTypeSagaComplete)"
| "isCompletion (Invoke s f a r) = False"

definition loopReturns :: "'w machine \<Rightarrow> bool" where
  "loopReturns m =
     (case fst (appendLog LogTypeStartSaga None None m) of
        Inl p \<Rightarrow> False
      | Inr u \<Rightarrow>
          (case fst (playFrom 0 (snd (appendLog LogTypeStartSaga None None m))) of
             Inl p \<Rightarrow> False
           | Inr v \<Rightarrow> True))"

lemma addsNo_isCompletion:
  assumes "\<forall>l e. Append l e \<in> set new \<longrightarrow> Log_Type l \<noteq> LogTypeSagaComplete"
    and "x \<in> set new"
  shows "\<not> isCompletion x"
  using assms by (cases x) auto

lemma Play_returns_loop: "fst (Play m) = Inr res \<Longrightarrow> loopReturns m"
  by (simp add: Play_unfold loopReturns_def Let_def split: sum.splits)

lemma loop_returns_on_success:
  assumes "storeOK st"
    and "\<forall>j<length (steps sg). stepOK cx (steps sg ! j)"
  shows "loopReturns (start cx sg st eid w clk)"
proof -
  from Play_succeeds [OF assms, of eid w clk]
  have "fst (Play (start cx sg st eid w clk)) = Inr \<lparr>Err = None\<rparr>"
    by auto
  then show ?thesis by (rule Play_returns_loop)
qed

lemma loop_returns_on_compensation:
  assumes "storeOK st"
    and "k < length (steps sg)"
    and "\<forall>j<k. stepOK cx (steps sg ! j)"
    and "stepFails cx (steps sg ! k) e"
    and "\<forall>j\<le>k. undoes cx (steps sg ! j)"
  shows "loopReturns (start cx sg st eid w clk)"
proof -
  from Play_compensates [OF assms, of eid w clk]
  have "fst (Play (start cx sg st eid w clk)) = Inr \<lparr>Err = Some e\<rparr>"
    by auto
  then show ?thesis by (rule Play_returns_loop)
qed

subsection \<open>Sagas to run\<close>

text \<open>
  The world counts what the steps did.  \<open>reserve\<close> returns \<open>(42, nil)\<close>, \<open>ship\<close> returns
  nothing, \<open>charge\<close> returns an error, \<open>jammed\<close> is a compensation that returns an error;
  \<open>misfiled\<close> has an action whose first parameter is not the context, \<open>unfinished\<close> a
  compensation that is no function, \<open>crossed\<close> a compensation that does not take the
  value its action returns; \<open>faultyStore ty\<close> fails on the events of type \<open>ty\<close>.

  \<open>declared ins body\<close> is a Go function declared with the parameters \<open>ins\<close>:
  \<open>reflect.Value.Call\<close> panics when the number of arguments is not the number of
  parameters, and runs the body otherwise.
\<close>

definition declared :: "rtype list \<Rightarrow> (val list \<Rightarrow> 'w \<Rightarrow> (panic + val list) \<times> 'w) \<Rightarrow> 'w obj" where
  "declared ins body =
     Fn ins (\<lambda>params w.
       if length params < length ins
       then (Inl (RuntimePanic ''reflect: Call with too few input arguments''), w)
       else if length ins < length params
       then (Inl (RuntimePanic ''reflect: Call with too many input arguments''), w)
       else body params w)"

definition quietStore :: "nat Store" where
  "quietStore l w = (None, w)"

definition reserve :: "nat obj" where
  "reserve = declared [ContextT] (\<lambda>params w. (Inr [IntV 42, NilV], w + 1))"

definition release :: "nat obj" where
  "release = declared [ContextT, OtherT ''int''] (\<lambda>params w. (Inr [NilV], w + 10))"

definition ship :: "nat obj" where
  "ship = declared [ContextT] (\<lambda>params w. (Inr [], w + 100))"

definition recall :: "nat obj" where
  "recall = declared [ContextT] (\<lambda>params w. (Inr [NilV], w))"

definition charge :: "nat obj" where
  "charge = declared [ContextT] (\<lambda>params w. (Inr [ErrV (Error ''declined'')], w))"

definition refund :: "nat obj" where
  "refund = declared [ContextT] (\<lambda>params w. (Inr [NilV], w))"

definition delivery :: "nat Saga" where
  "delivery = \<lparr>Saga_Name = ''delivery'', steps =
     [\<lparr>Step_Name = ''reserve'', Func = reserve, CompensateFunc = release\<rparr>,
      \<lparr>Step_Name = ''ship'', Func = ship, CompensateFunc = recall\<rparr>]\<rparr>"

definition payment :: "nat Saga" where
  "payment = \<lparr>Saga_Name = ''payment'', steps =
     [\<lparr>Step_Name = ''reserve'', Func = reserve, CompensateFunc = release\<rparr>,
      \<lparr>Step_Name = ''charge'', Func = charge, CompensateFunc = refund\<rparr>,
      \<lparr>Step_Name = ''ship'', Func = ship, CompensateFunc = recall\<rparr>]\<rparr>"

definition misfiled :: "nat Saga" where
  "misfiled = \<lparr>Saga_Name = ''misfiled'', steps =
     [\<lparr>Step_Name = ''reserve'', Func = reserve, CompensateFunc = release\<rparr>,
      \<lparr>Step_Name = ''ship'', Func = declared [OtherT ''string''] (\<lambda>params w. (Inr [NilV], w)),
        CompensateFunc = recall\<rparr>]\<rparr>"

definition unfinished :: "nat Saga" where
  "unfinished = \<lparr>Saga_Name = ''unfinished'', steps =
     [\<lparr>Step_Name = ''reserve'', Func = reserve, CompensateFunc = release\<rparr>,
      \<lparr>Step_Name = ''ship'', Func = ship, CompensateFunc = NonFunc (StrV ''recall'')\<rparr>]\<rparr>"

definition faultyStore :: "LogType \<Rightarrow> nat Store" where
  "faultyStore ty l w = (if Log_Type l = ty then Some (Error ''disk full'') else None, w)"

definition jammed :: "nat obj" where
  "jammed = declared [ContextT, OtherT ''int''] (\<lambda>params w. (Inr [ErrV (Error ''jammed'')], w))"

definition stuck :: "nat Saga" where
  "stuck = \<lparr>Saga_Name = ''stuck'', steps =
     [\<lparr>Step_Name = ''reserve'', Func = reserve, CompensateFunc = jammed\<rparr>,
      \<lparr>Step_Name = ''charge'', Func = charge, CompensateFunc = refund\<rparr>]\<rparr>"

definition crossed :: "nat Saga" where
  "crossed = \<lparr>Saga_Name = ''crossed'', steps =
     [\<lparr>Step_Name = ''reserve'', Func = reserve, CompensateFunc = recall\<rparr>,
      \<lparr>Step_Name = ''charge'', Func = charge, CompensateFunc = refund\<rparr>]\<rparr>"

definition clock :: "nat \<Rightarrow> nat" where
  "clock w = 1000 + w"

lemmas run_defs =
  Play_def playFrom.simps execStep_def abort_def compensateStep_def appendLog_def newLog_def checkErr_def
  andThen_def getC_def setC_def index_def ret_def raise_def lift_def Let_def
  start_def NewCoordinator_def

lemmas example_defs =
  quietStore_def reserve_def release_def ship_def recall_def charge_def refund_def
  delivery_def payment_def misfiled_def unfinished_def faultyStore_def jammed_def stuck_def
  crossed_def clock_def declared_def

lemmas condition_defs =
  storeOK_def stepOK_def stepFails_def undoes_def returnsErr_def returnsWhere_def wellFormed_def

lemmas shape_defs = isFunc_def firstParam_def configError_def

lemma payment_run_calls:
  "callsOf (history (snd (Play (start 7 payment quietStore ''run'' 0 clock)))) =
     [(Action 0, reserve, [CtxV 7]), (Action 1, charge, [CtxV 7]),
      (Compensation 1, refund, [CtxV 7]), (Compensation 0, release, [CtxV 7, IntV 42])]"
  by (simp add: run_defs example_defs)

lemma every_append_is_checked:
  "fst (Play (start 7 payment (faultyStore ty) ''run'' 0 clock)) =
     Inl (LogPanicln [] (Error ''disk full''))"
  by (cases ty) (simp_all add: run_defs example_defs)

lemma crossed_compensation_panics:
  "\<not> undoes 7 (steps crossed ! 0) \<and>
   fst (Play (start 7 crossed quietStore ''run'' 0 clock)) =
     Inl (RuntimePanic ''reflect: Call with too many input arguments'')"
  by (simp add: run_defs example_defs condition_defs)

lemma panicking_run_logs_no_completion:
  "\<not> loopReturns (start 7 stuck quietStore ''run'' 0 clock) \<and>
   fst (Play (start 7 stuck quietStore ''run'' 0 clock)) = Inl (PanicErr (Error ''jammed'')) \<and>
   map fst (logsOf (history (snd (Play (start 7 stuck quietStore ''run'' 0 clock))))) =
     [LogTypeStartSaga, LogTypeSagaStepExec, LogTypeSagaStepExec, LogTypeSagaAbort,
      LogTypeSagaStepCompensate, LogTypeSagaStepCompensate]"
  by (simp add: loopReturns_def run_defs example_defs)

lemma aborting_run_calls:
  assumes "storeOK st"
    and "k < length (steps sg)"
    and "\<forall>j<k. stepOK cx (steps sg ! j)"
    and "stepFails cx (steps sg ! k) e"
    and "\<forall>j\<le>k. undoes cx (steps sg ! j)"
  shows "\<exists>rs. length rs = Suc k \<and>
           resultsOf (history (snd (Play (start cx sg st eid w clk)))) = map Inr rs \<and>
           callsOf (history (snd (Play (start cx sg st eid w clk)))) =
             actionCalls cx sg (Suc k) @ compensationCalls cx sg rs (Suc k)"
proof -
  from Play_compensates [OF assms, of eid w clk]
  obtain m l w' where p: "Play (start cx sg st eid w clk) =
           (Inr \<lparr>Err = Some e\<rparr>, m\<lparr>world := w', history := history m @ [Append l None]\<rparr>)"
    and c: "compensated sg cx (Suc k) e m"
    by blast
  from c show ?thesis
    unfolding p
    by (intro exI [of _ "returnedValuesFromFunc (coord m)"])
       (simp add: compensated_def callsOf_append resultsOf_append del: upt_Suc rev.simps)
qed

lemma aborting_run_logs:
  assumes "storeOK st"
    and "k < length (steps sg)"
    and "\<forall>j<k. stepOK cx (steps sg ! j)"
    and "stepFails cx (steps sg ! k) e"
    and "\<forall>j\<le>k. undoes cx (steps sg ! j)"
  shows "logsOf (history (snd (Play (start cx sg st eid w clk)))) =
           (LogTypeStartSaga, None, None) #
           stepLogs LogTypeSagaStepExec sg [0..<Suc k] @
           (LogTypeSagaAbort, Some (Suc k), None) #
           stepLogs LogTypeSagaStepCompensate sg (rev [0..<Suc k]) @
           [(LogTypeSagaComplete, None, None)] \<and>
         filter (\<lambda>x. fst x = LogTypeSagaAbort) (logsOf (history (snd (Play (start cx sg st eid w clk))))) =
           [(LogTypeSagaAbort, Some (Suc k), None)]"
proof -
  from Play_compensates [OF assms, of eid w clk]
  obtain m l w' where p: "Play (start cx sg st eid w clk) =
           (Inr \<lparr>Err = Some e\<rparr>, m\<lparr>world := w', history := history m @ [Append l None]\<rparr>)"
    and c: "compensated sg cx (Suc k) e m"
    and l: "(Log_Type l, StepNumber l, StepName l) = (LogTypeSagaComplete, None, None)"
    by blast
  from c l have lg: "logsOf (history (snd (Play (start cx sg st eid w clk)))) =
           (LogTypeStartSaga, None, None) #
           stepLogs LogTypeSagaStepExec sg [0..<Suc k] @
           (LogTypeSagaAbort, Some (Suc k), None) #
           stepLogs LogTypeSagaStepCompensate sg (rev [0..<Suc k]) @
           [(LogTypeSagaComplete, None, None)]"
    unfolding p by (simp add: compensated_def logsOf_append del: upt_Suc rev.simps)
  show ?thesis
    unfolding lg by (simp add: filter_stepLogs del: upt_Suc rev.simps)
qed

section \<open>The claims\<close>

text \<open>
  C1.  Step \<open>k\<close>'s action returns a non-nil error \<open>e\<close> and the actions of steps
  \<open>0..k-1\<close> return a nil error.  The coordinator is new, the store reports no fault, the
  functions and compensations have the right shape, and the compensation of every step
  \<open>0..k\<close> returns a nil error at the arguments the coordinator passes it, the context
  followed by the values its action returned without the last (\<open>undoes\<close>); at any other
  arguments it may panic, as the functions of \<open>payment\<close> do when the number of arguments
  is not the number of their parameters.  Then the invocations of the run are the actions
  of steps \<open>0..k\<close> in ascending order, then the compensations of steps \<open>k, k-1, ..., 0\<close>
  in descending order, and nothing else, so no action of a step after \<open>k\<close>; Play returns
  a Result whose error is \<open>e\<close>.
\<close>

theorem Play_compensates_in_reverse:
  assumes "storeOK st"
    and "k < length (steps sg)"
    and "\<forall>j<k. stepOK cx (steps sg ! j)"
    and "stepFails cx (steps sg ! k) e"
    and "\<forall>j\<le>k. undoes cx (steps sg ! j)"
  shows "fst (Play (start cx sg st eid w clk)) = Inr \<lparr>Err = Some e\<rparr> \<and>
         map (\<lambda>(s, f, a). (s, f)) (callsOf (history (snd (Play (start cx sg st eid w clk))))) =
           map (\<lambda>j. (Action j, Func (steps sg ! j))) [0..<Suc k] @
           map (\<lambda>j. (Compensation j, CompensateFunc (steps sg ! j))) (rev [0..<Suc k])"
proof -
  from Play_compensates [OF assms, of eid w clk]
  obtain m l w' where p: "Play (start cx sg st eid w clk) =
           (Inr \<lparr>Err = Some e\<rparr>, m\<lparr>world := w', history := history m @ [Append l None]\<rparr>)"
    and c: "compensated sg cx (Suc k) e m"
    by blast
  from c show ?thesis
    unfolding p
    by (simp add: compensated_def callsOf_append actionCalls_def compensationCalls_def
        del: upt_Suc rev.simps)
qed

theorem Play_compensates_in_reverse_witness:
  "fst (Play (start 7 payment quietStore ''run'' 0 clock)) = Inr \<lparr>Err = Some (Error ''declined'')\<rparr> \<and>
   map (\<lambda>(s, f, a). (s, f)) (callsOf (history (snd (Play (start 7 payment quietStore ''run'' 0 clock))))) =
     map (\<lambda>j. (Action j, Func (steps payment ! j))) [0..<Suc 1] @
     map (\<lambda>j. (Compensation j, CompensateFunc (steps payment ! j))) (rev [0..<Suc 1])"
  by (rule Play_compensates_in_reverse) (simp_all add: condition_defs example_defs less_Suc_eq le_Suc_eq)

text \<open>
  C2.  A saga of \<open>N\<close> steps (\<open>N\<close> may be 0) whose actions all return a nil trailing
  error, played by a new coordinator on a store that reports no fault, with functions and
  compensations of the right shape: Play returns a Result with nil error; the invocations
  are exactly the actions of steps \<open>0..N-1\<close>, in this order, each with the context alone, and
  no compensation; the events appended are exactly \<open>2 + N\<close>: the start of the saga, one
  step execution per step in step order, the completion of the saga.
\<close>

theorem Play_all_succeed:
  assumes "storeOK st"
    and "\<forall>j<length (steps sg). stepOK cx (steps sg ! j)"
  shows "fst (Play (start cx sg st eid w clk)) = Inr \<lparr>Err = None\<rparr> \<and>
         callsOf (history (snd (Play (start cx sg st eid w clk)))) =
           actionCalls cx sg (length (steps sg)) \<and>
         logsOf (history (snd (Play (start cx sg st eid w clk)))) =
           (LogTypeStartSaga, None, None) #
           stepLogs LogTypeSagaStepExec sg [0..<length (steps sg)] @
           [(LogTypeSagaComplete, None, None)] \<and>
         length (logsOf (history (snd (Play (start cx sg st eid w clk))))) = 2 + length (steps sg)"
proof -
  from Play_succeeds [OF assms, of eid w clk]
  obtain m l w' where p: "Play (start cx sg st eid w clk) =
           (Inr \<lparr>Err = None\<rparr>, m\<lparr>world := w', history := history m @ [Append l None]\<rparr>)"
    and f: "forward sg cx (length (steps sg)) m"
    and l: "(Log_Type l, StepNumber l, StepName l) = (LogTypeSagaComplete, None, None)"
    by blast
  from f l show ?thesis
    unfolding p by (simp add: forward_def logsOf_append callsOf_append stepLogs_def)
qed

theorem Play_all_succeed_witness:
  "fst (Play (start 7 delivery quietStore ''run'' 0 clock)) = Inr \<lparr>Err = None\<rparr> \<and>
   callsOf (history (snd (Play (start 7 delivery quietStore ''run'' 0 clock)))) =
     actionCalls 7 delivery (length (steps delivery)) \<and>
   logsOf (history (snd (Play (start 7 delivery quietStore ''run'' 0 clock)))) =
     (LogTypeStartSaga, None, None) #
     stepLogs LogTypeSagaStepExec delivery [0..<length (steps delivery)] @
     [(LogTypeSagaComplete, None, None)] \<and>
   length (logsOf (history (snd (Play (start 7 delivery quietStore ''run'' 0 clock))))) =
     2 + length (steps delivery)"
  by (rule Play_all_succeed) (simp_all add: condition_defs example_defs less_Suc_eq)

text \<open>
  C3, as stated, fails.  In the run of \<open>payment\<close> the action of step 1 returns a non-nil
  error, the run is compensated and Play returns that error, and the event of completion
  is appended all the same, after the compensating events.
\<close>

theorem aborted_run_logs_complete:
  "resultsOf (history (snd (Play (start 7 payment quietStore ''run'' 0 clock)))) =
     [Inr [IntV 42, NilV], Inr [ErrV (Error ''declined'')]] \<and>
   fst (Play (start 7 payment quietStore ''run'' 0 clock)) = Inr \<lparr>Err = Some (Error ''declined'')\<rparr> \<and>
   map fst (logsOf (history (snd (Play (start 7 payment quietStore ''run'' 0 clock))))) =
     [LogTypeStartSaga, LogTypeSagaStepExec, LogTypeSagaStepExec, LogTypeSagaAbort,
      LogTypeSagaStepCompensate, LogTypeSagaStepCompensate, LogTypeSagaComplete]"
  by (simp add: run_defs example_defs)

text \<open>
  C3, amended.  In every run of Play, from any machine, the event of completion is
  appended if and only if the loop over the steps returns (\<open>loopReturns\<close>: no append, no
  call and no compensation before the last append panics), as it does when every action
  returns a nil error and also when an action returns an error and the executed steps
  are compensated.  No event of the run but the last is an event of completion, so it is
  appended at most once, and a run that panics before the loop has returned appends
  none.  A run that returns a Result is one whose loop returned: its last event is the
  event of completion, with no step number and no step name, and the store accepted it.
\<close>

theorem complete_logged_iff_loop_returns:
  fixes m :: "'w machine"
  shows "\<exists>new. history (snd (Play m)) = history m @ new \<and>
     ((\<exists>x\<in>set new. isCompletion x) \<longleftrightarrow> loopReturns m) \<and>
     (\<forall>x\<in>set (butlast new). \<not> isCompletion x) \<and>
     (loopReturns m \<longrightarrow> new \<noteq> [] \<and> isCompletion (last new)) \<and>
     (\<forall>res. fst (Play m) = Inr res \<longrightarrow>
        loopReturns m \<and>
        (\<exists>l. last new = Append l None \<and>
           (Log_Type l, StepNumber l, StepName l) = (LogTypeSagaComplete, None, None)))"
proof -
  let ?a = "appendLog LogTypeStartSaga None None m"
  let ?ls = "newLog LogTypeStartSaga None None m"
  let ?es = "fst (logStore (coord m) ?ls (world m))"
  have ha: "history (snd ?a) = history m @ [Append ?ls ?es]"
    by (simp add: appendLog_eq)
  have ts: "\<not> isCompletion (Append ?ls ?es :: 'w event)"
    by (simp add: newLog_def)
  show ?thesis
  proof (cases "fst ?a")
    case (Inl p)
    then have P: "Play m = (Inl p, snd ?a)" by (simp add: Play_unfold)
    from Inl have L: "\<not> loopReturns m" by (simp add: loopReturns_def)
    show ?thesis
      using P L ha ts by (intro exI [of _ "[Append ?ls ?es]"]) simp
  next
    case a: (Inr u)
    let ?b = "playFrom 0 (snd ?a)"
    have "addsNo LogTypeSagaComplete (playFrom 0) (snd ?a)"
      by (rule addsNo_playFrom) simp_all
    then obtain newb where hb: "history (snd ?b) = history (snd ?a) @ newb"
      and nb: "\<forall>l e. Append l e \<in> set newb \<longrightarrow> Log_Type l \<noteq> LogTypeSagaComplete"
      unfolding addsNo_def by blast
    have nb': "\<forall>x\<in>set newb. \<not> isCompletion x"
      using addsNo_isCompletion [OF nb] by blast
    show ?thesis
    proof (cases "fst ?b")
      case (Inl p)
      with a have P: "Play m = (Inl p, snd ?b)" by (simp add: Play_unfold)
      from a Inl have L: "\<not> loopReturns m" by (simp add: loopReturns_def)
      have n: "\<forall>x\<in>set (butlast (Append ?ls ?es # newb)). \<not> isCompletion x"
        using nb' ts by (auto dest: in_set_butlastD)
      show ?thesis
        using P L ha hb ts nb' n by (intro exI [of _ "Append ?ls ?es # newb"]) simp
    next
      case b: (Inr v)
      let ?c = "appendLog LogTypeSagaComplete None None (snd ?b)"
      let ?lc = "newLog LogTypeSagaComplete None None (snd ?b)"
      let ?ec = "fst (logStore (coord (snd ?b)) ?lc (world (snd ?b)))"
      let ?new = "(Append ?ls ?es # newb) @ [Append ?lc ?ec]"
      have hc: "history (snd ?c) = history (snd ?b) @ [Append ?lc ?ec]"
        and fc: "fst ?c = checkErr ?ec []"
        by (simp_all add: appendLog_eq)
      have tc: "(Log_Type ?lc, StepNumber ?lc, StepName ?lc) = (LogTypeSagaComplete, None, None)"
        by (simp add: newLog_def)
      from a b have L: "loopReturns m" by (simp add: loopReturns_def)
      from a b have P: "snd (Play m) = snd ?c" "\<And>res. fst (Play m) = Inr res \<Longrightarrow> ?ec = None"
        using fc by (auto simp: Play_unfold Let_def checkErr_def split: sum.splits option.splits)
      have 1: "history (snd (Play m)) = history m @ ?new"
        using P(1) ha hb hc by simp
      have 2: "\<exists>x\<in>set ?new. isCompletion x"
        using tc by simp
      have 3: "\<forall>x\<in>set (butlast ?new). \<not> isCompletion x"
        using nb' ts by (simp only: butlast_snoc) simp
      have 4: "?new \<noteq> [] \<and> isCompletion (last ?new)"
        using tc by simp
      have 5: "\<exists>l. last ?new = Append l None \<and>
           (Log_Type l, StepNumber l, StepName l) = (LogTypeSagaComplete, None, None)"
        if "fst (Play m) = Inr res" for res
        using P(2) [OF that] tc by (simp only: last_snoc) simp
      show ?thesis
        using 1 2 3 4 5 L by (intro exI [of _ ?new]) blast
    qed
  qed
qed

theorem complete_logged_iff_loop_returns_witness:
  "loopReturns (start 7 payment quietStore ''run'' 0 clock) \<and>
   fst (Play (start 7 payment quietStore ''run'' 0 clock)) = Inr \<lparr>Err = Some (Error ''declined'')\<rparr> \<and>
   (\<exists>l. last (history (snd (Play (start 7 payment quietStore ''run'' 0 clock)))) = Append l None \<and>
        (Log_Type l, StepNumber l, StepName l) = (LogTypeSagaComplete, None, None)) \<and>
   filter isCompletion (butlast (history (snd (Play (start 7 payment quietStore ''run'' 0 clock))))) = []"
proof -
  let ?m = "start 7 payment quietStore ''run'' 0 clock"
  have r: "fst (Play ?m) = Inr \<lparr>Err = Some (Error ''declined'')\<rparr>"
    by (simp add: run_defs example_defs)
  have h: "history ?m = []" by (simp add: start_def)
  from complete_logged_iff_loop_returns [of ?m] r h show ?thesis
    by (auto simp: filter_empty_conv)
qed

text \<open>
  C4.  Whatever the saga, the store and the world: the invocations of a run of a new
  coordinator are the actions of steps \<open>0..n-1\<close>, for some \<open>n\<close>, then the compensations of
  steps \<open>n-1..j\<close>, for some \<open>j \<le> n\<close>, and nothing else.  The compensation of every such
  step \<open>i\<close> is invoked with the context followed by \<open>rs ! i\<close> without its last value, the
  error slot, where \<open>rs ! i\<close> are the values the \<open>i\<close>-th action invoked, the one of step
  \<open>i\<close>, returned.  In the run of \<open>payment\<close>, \<open>reserve\<close> returns \<open>(42, nil)\<close> and \<open>release\<close>
  is invoked with the context and 42 (\<open>payment_run_calls\<close>).
\<close>

theorem compensation_gets_results:
  "\<exists>n j rs. j \<le> n \<and>
     length (resultsOf (history (snd (Play (start cx sg st eid w clk))))) = n \<and>
     callsOf (history (snd (Play (start cx sg st eid w clk)))) =
       actionCalls cx sg n @
       map (\<lambda>i. (Compensation i, CompensateFunc (steps sg ! i), CtxV cx # butlast (rs ! i)))
         (rev [j..<n]) \<and>
     (\<forall>i. j \<le> i \<and> i < n \<longrightarrow>
        resultsOf (history (snd (Play (start cx sg st eid w clk)))) ! i = Inr (rs ! i))"
proof -
  let ?h = "history (snd (Play (start cx sg st eid w clk)))"
  from Play_all [of sg cx st eid w clk]
  have "plain sg cx ?h \<or> unwound sg cx ?h" by blast
  then show ?thesis
  proof
    assume "plain sg cx ?h"
    then obtain n where "callsOf ?h = actionCalls cx sg n" "length (resultsOf ?h) = n"
      unfolding plain_def by blast
    then show ?thesis
      by (intro exI [of _ n] exI [of _ "[]"]) auto
  next
    assume "unwound sg cx ?h"
    then obtain pre l e post n j rs where u:
      "?h = pre @ Append l e # post"
      "callsOf pre = actionCalls cx sg n" "resultsOf pre = map Inr rs" "length rs = n"
      "j \<le> n"
      "callsOf post =
          map (\<lambda>i. (Compensation i, CompensateFunc (steps sg ! i), CtxV cx # butlast (rs ! i)))
            (rev [j..<n])"
      "resultsOf post = []"
      unfolding unwound_def by blast
    have "callsOf ?h = actionCalls cx sg n @
       map (\<lambda>i. (Compensation i, CompensateFunc (steps sg ! i), CtxV cx # butlast (rs ! i)))
         (rev [j..<n])"
      unfolding u(1) using u(2,6) by (simp add: callsOf_append)
    moreover have r: "resultsOf ?h = map Inr rs"
      unfolding u(1) using u(3,7) by (simp add: resultsOf_append)
    moreover have "resultsOf ?h ! i = Inr (rs ! i)" if "i < n" for i
      unfolding r using that u(4) by simp
    ultimately show ?thesis
      using u(4,5) by (intro exI [of _ n] exI [of _ j] exI [of _ rs]) simp
  qed
qed

theorem compensation_gets_results_witness:
  "\<exists>rs. resultsOf (history (snd (Play (start 7 payment quietStore ''run'' 0 clock)))) ! 0 = Inr (rs ! 0) \<and>
     callsOf (history (snd (Play (start 7 payment quietStore ''run'' 0 clock)))) =
       actionCalls 7 payment 2 @
       map (\<lambda>i. (Compensation i, CompensateFunc (steps payment ! i), CtxV 7 # butlast (rs ! i)))
         (rev [0..<2])"
proof -
  let ?h = "history (snd (Play (start 7 payment quietStore ''run'' 0 clock)))"
  from compensation_gets_results [of 7 payment quietStore "''run''" 0 clock]
  obtain n j rs where j: "j \<le> n" and n: "length (resultsOf ?h) = n"
    and c: "callsOf ?h = actionCalls 7 payment n @
       map (\<lambda>i. (Compensation i, CompensateFunc (steps payment ! i), CtxV 7 # butlast (rs ! i)))
         (rev [j..<n])"
    and r: "\<forall>i. j \<le> i \<and> i < n \<longrightarrow> resultsOf ?h ! i = Inr (rs ! i)"
    by blast
  have "length (resultsOf ?h) = 2" by (simp add: run_defs example_defs)
  with n have n2: "n = 2" by simp
  have "length (callsOf ?h) = 4" by (simp add: run_defs example_defs)
  with c n2 have "length (actionCalls 7 payment 2) + (2 - j) = 4" by simp
  then have j0: "j = 0" by (simp add: actionCalls_def)
  from r n2 j0 have "resultsOf ?h ! 0 = Inr (rs ! 0)" by simp
  with c n2 j0 show ?thesis by blast
qed

text \<open>
  C5.  Whatever the saga, the store and the world a new coordinator runs in: if in the
  run some compensation returns a non-nil error \<open>e\<close>, then Play panics with \<open>e\<close>
  (\<open>panic(err)\<close> in \<open>compensateStep\<close>) and returns no Result, and that invocation is the last
  thing the run did.  And if Play returns a Result, its error is the error the failing
  action returned, the only one in the run, or nil when no action returned an error
  (\<open>actionErrors\<close> lists the errors the actions of the run returned); it is never the error
  of a compensation.
\<close>

theorem compensation_error_is_fatal:
  "(\<forall>i f a out e.
      Invoke (Compensation i) f a (Inr out) \<in> set (history (snd (Play (start cx sg st eid w clk)))) \<and>
      isReturnError out = Inr (Some e) \<longrightarrow>
        fst (Play (start cx sg st eid w clk)) = Inl (PanicErr e) \<and>
        last (history (snd (Play (start cx sg st eid w clk)))) = Invoke (Compensation i) f a (Inr out)) \<and>
   (\<forall>res. fst (Play (start cx sg st eid w clk)) = Inr res \<longrightarrow>
      actionErrors (history (snd (Play (start cx sg st eid w clk)))) =
        (case Err res of None \<Rightarrow> [] | Some e \<Rightarrow> [e]))"
proof -
  let ?m = "start cx sg st eid w clk"
  have h0: "history ?m = []" by (simp add: start_def)
  from stopsAt_Play [OF sound_compensationFault, of ?m] h0
  have b: "\<forall>ev\<in>set (butlast (history (snd (Play ?m)))). compensationFault ev = None"
    and l: "\<forall>p. history (snd (Play ?m)) \<noteq> [] \<and> compensationFault (last (history (snd (Play ?m)))) = Some p
              \<longrightarrow> fst (Play ?m) = Inl p"
    unfolding stopsAt_def by auto
  have "fst (Play ?m) = Inl (PanicErr e) \<and>
        last (history (snd (Play ?m))) = Invoke (Compensation i) f a (Inr out)"
    if "Invoke (Compensation i) f a (Inr out) \<in> set (history (snd (Play ?m)))"
      and "isReturnError out = Inr (Some e)" for i f a out e
  proof -
    let ?new = "history (snd (Play ?m))"
    have f: "compensationFault (Invoke (Compensation i) f a (Inr out)) = Some (PanicErr e)"
      using that(2) by (simp add: compensationFault_def del: isReturnError.simps)
    have nb: "Invoke (Compensation i) f a (Inr out) \<notin> set (butlast ?new)"
    proof
      assume "Invoke (Compensation i) f a (Inr out) \<in> set (butlast ?new)"
      with b have "compensationFault (Invoke (Compensation i) f a (Inr out)) = None"
        by (rule bspec)
      with f show False by simp
    qed
    from that(1) have ne: "?new \<noteq> []" by auto
    from that(1) nb have la: "last ?new = Invoke (Compensation i) f a (Inr out)"
      by (rule last_if_not_butlast)
    from l ne f la have "fst (Play ?m) = Inl (PanicErr e)" by simp
    with la show ?thesis by simp
  qed
  moreover have "actionErrors (history (snd (Play ?m))) = (case Err res of None \<Rightarrow> [] | Some e \<Rightarrow> [e])"
    if "fst (Play ?m) = Inr res" for res
    using errInv_Play [OF start_errInv that] .
  ultimately show ?thesis by blast
qed

theorem compensation_error_is_fatal_witness:
  "fst (Play (start 7 stuck quietStore ''run'' 0 clock)) = Inl (PanicErr (Error ''jammed'')) \<and>
   actionErrors (history (snd (Play (start 7 payment quietStore ''run'' 0 clock)))) = [Error ''declined'']"
proof -
  let ?x = "start 7 stuck quietStore ''run'' 0 clock"
  let ?y = "start 7 payment quietStore ''run'' 0 clock"
  have a: "Invoke (Compensation 0) jammed [CtxV 7, IntV 42] (Inr [ErrV (Error ''jammed'')])
             \<in> set (history (snd (Play ?x)))"
    by (simp add: run_defs example_defs)
  have b: "isReturnError [ErrV (Error ''jammed'')] = Inr (Some (Error ''jammed''))"
    by simp
  have c: "fst (Play ?y) = Inr \<lparr>Err = Some (Error ''declined'')\<rparr>"
    by (simp add: run_defs example_defs)
  from compensation_error_is_fatal [of 7 stuck quietStore "''run''" 0 clock] a b
  have 1: "fst (Play ?x) = Inl (PanicErr (Error ''jammed''))" by blast
  from compensation_error_is_fatal [of 7 payment quietStore "''run''" 0 clock] c
  have 2: "actionErrors (history (snd (Play ?y))) = [Error ''declined'']" by fastforce
  from 1 2 show ?thesis by simp
qed

text \<open>
  C6.  Whatever machine Play starts from: if the store returns a non-nil error \<open>e\<close> for an
  event of the run, of whatever type, then Play panics through \<open>log.Panicln\<close> with \<open>e\<close> and
  returns no Result, and that append is the last thing the run did: it occurs nowhere
  before the end of what the run added to the history.  In the run of \<open>payment\<close> events of
  all five types are appended, and a fault on any of them is fatal
  (\<open>every_append_is_checked\<close>).
\<close>

theorem store_fault_is_fatal:
  fixes m :: "'w machine"
  shows "\<exists>new. history (snd (Play m)) = history m @ new \<and>
     (\<forall>l e. Append l (Some e) \<in> set new \<longrightarrow>
        fst (Play m) = Inl (LogPanicln [] e) \<and>
        last new = Append l (Some e) \<and> Append l (Some e) \<notin> set (butlast new))"
proof -
  from stopsAt_Play [OF sound_storeFault, of m]
  obtain new where n: "history (snd (Play m)) = history m @ new"
    and b: "\<forall>ev\<in>set (butlast new). storeFault ev = None"
    and l: "\<forall>p. new \<noteq> [] \<and> storeFault (last new) = Some p \<longrightarrow> fst (Play m) = Inl p"
    unfolding stopsAt_def by blast
  have "fst (Play m) = Inl (LogPanicln [] e) \<and>
        last new = Append l (Some e) \<and> Append l (Some e) \<notin> set (butlast new)"
    if "Append l (Some e) \<in> set new" for l e
  proof -
    have f: "storeFault (Append l (Some e) :: 'w event) = Some (LogPanicln [] e)"
      by (simp add: storeFault_def)
    have nb: "Append l (Some e) \<notin> set (butlast new)"
    proof
      assume "Append l (Some e) \<in> set (butlast new)"
      with b have "storeFault (Append l (Some e) :: 'w event) = None" by (rule bspec)
      with f show False by simp
    qed
    from that have ne: "new \<noteq> []" by auto
    from that nb have la: "last new = Append l (Some e)" by (rule last_if_not_butlast)
    from l ne f la have "fst (Play m) = Inl (LogPanicln [] e)" by simp
    with la nb show ?thesis by simp
  qed
  with n show ?thesis by blast
qed

theorem store_fault_is_fatal_witness:
  "fst (Play (start 7 payment (faultyStore LogTypeSagaAbort) ''run'' 0 clock)) =
     Inl (LogPanicln [] (Error ''disk full''))"
proof -
  let ?m = "start 7 payment (faultyStore LogTypeSagaAbort) ''run'' 0 clock"
  let ?l = "\<lparr>Log_ExecutionID = ''run'', Log_Name = ''payment'', Log_Time = 1001,
             Log_Type = LogTypeSagaAbort, StepNumber = Some 2, StepName = None\<rparr>"
  have h: "Append ?l (Some (Error ''disk full'')) \<in> set (history (snd (Play ?m)))"
    by (simp add: run_defs example_defs)
  have "history ?m = []" by (simp add: start_def)
  with store_fault_is_fatal [of ?m] h show ?thesis by auto
qed

text \<open>
  C7.  The action of step \<open>k\<close> is no function, or its first parameter is not the context
  (also when it has no parameter), and the steps before \<open>k\<close> are well shaped and succeed:
  Play panics with the configuration error of \<open>getFuncValue\<close>, raised through
  \<open>log.Panicln\<close>, so it returns no Result; the actions of steps \<open>0..k-1\<close> were invoked, each
  once and in order, and the execution of step \<open>k\<close> was logged before the panic.
\<close>

theorem malformed_action_is_fatal:
  assumes "storeOK st"
    and "k < length (steps sg)"
    and "\<forall>j<k. stepOK cx (steps sg ! j)"
    and "\<not> isFunc (Func (steps sg ! k)) \<or> firstParam (Func (steps sg ! k)) \<noteq> Some ContextT"
  shows "fst (Play (start cx sg st eid w clk)) = Inl (configError (Func (steps sg ! k))) \<and>
         callsOf (history (snd (Play (start cx sg st eid w clk)))) = actionCalls cx sg k \<and>
         logsOf (history (snd (Play (start cx sg st eid w clk)))) =
           (LogTypeStartSaga, None, None) # stepLogs LogTypeSagaStepExec sg [0..<Suc k]"
proof -
  let ?p = "configError (Func (steps sg ! k))"
  from Play_reaches [OF assms(1-3), of eid clk w]
  obtain m where m: "static m = (sg, st, cx, eid, clk)" "forward sg cx k m"
    and p: "\<And>p. fst (execStep k m) = Inl p \<Longrightarrow>
                Play (start cx sg st eid w clk) = (Inl p, snd (execStep k m))"
    by blast
  from execStep_badAction [OF m assms(1,2) getFuncValue_malformed [OF assms(4)]]
  obtain l w' where e: "execStep k m = (Inl ?p, m\<lparr>world := w', history := history m @ [Append l None]\<rparr>)"
    and l: "(Log_Type l, StepNumber l, StepName l) =
             (LogTypeSagaStepExec, Some k, Some (Step_Name (steps sg ! k)))"
    by blast
  from p [of ?p] e
  have "Play (start cx sg st eid w clk) = (Inl ?p, m\<lparr>world := w', history := history m @ [Append l None]\<rparr>)"
    by simp
  with m(2) l show ?thesis
    by (simp add: forward_def logsOf_append callsOf_append stepLogs_def)
qed

theorem malformed_action_is_fatal_witness:
  "fst (Play (start 7 misfiled quietStore ''run'' 0 clock)) =
     Inl (configError (Func (steps misfiled ! 1))) \<and>
   callsOf (history (snd (Play (start 7 misfiled quietStore ''run'' 0 clock)))) =
     actionCalls 7 misfiled 1 \<and>
   logsOf (history (snd (Play (start 7 misfiled quietStore ''run'' 0 clock)))) =
     (LogTypeStartSaga, None, None) # stepLogs LogTypeSagaStepExec misfiled [0..<Suc 1]"
  by (rule malformed_action_is_fatal)
     (simp_all add: condition_defs example_defs shape_defs)

text \<open>
  C8.  A run aborts when \<open>execStep\<close> records the error of an action in \<open>c.err\<close> and calls
  \<open>abort\<close>; nothing else writes \<open>c.err\<close>.  Whatever the saga, the store and the world: the
  history of a run of a new coordinator that recorded an error has an abort event whose
  step number is the number of the actions invoked before it, the failed one with them; no
  action is invoked after it; no abort event and no compensating event comes before it
  and no abort event after it.  So one abort event is appended, before every compensating
  event.  \<open>aborting_run_logs\<close> gives the whole sequence of events of such a run when the
  store reports no fault and the compensations succeed.
\<close>

theorem abort_logged_once:
  assumes "err (coord (snd (Play (start cx sg st eid w clk)))) \<noteq> None"
  shows "\<exists>pre l e post.
           history (snd (Play (start cx sg st eid w clk))) = pre @ Append l e # post \<and>
           Log_Type l = LogTypeSagaAbort \<and>
           StepNumber l = Some (length (resultsOf pre)) \<and>
           resultsOf post = [] \<and>
           (\<forall>x\<in>set (logsOf pre). fst x \<noteq> LogTypeSagaAbort \<and> fst x \<noteq> LogTypeSagaStepCompensate) \<and>
           (\<forall>x\<in>set (logsOf post). fst x \<noteq> LogTypeSagaAbort)"
proof -
  let ?h = "history (snd (Play (start cx sg st eid w clk)))"
  from Play_all [of sg cx st eid w clk] assms have "unwound sg cx ?h" by blast
  then obtain pre l e post n j rs where u:
    "?h = pre @ Append l e # post"
    "(Log_Type l, StepNumber l, StepName l) = (LogTypeSagaAbort, Some n, None)"
    "resultsOf pre = map Inr rs" "length rs = n"
    "\<forall>x\<in>set (logsOf pre). fst x \<noteq> LogTypeSagaAbort \<and> fst x \<noteq> LogTypeSagaStepCompensate"
    "resultsOf post = []"
    "\<forall>x\<in>set (logsOf post). fst x \<noteq> LogTypeSagaAbort"
    "j \<le> n"
    unfolding unwound_def by blast
  from u(2,3,4) have "Log_Type l = LogTypeSagaAbort" "StepNumber l = Some (length (resultsOf pre))"
    by simp_all
  with u(1,5,6,7) show ?thesis by blast
qed

theorem abort_logged_once_witness:
  "\<exists>pre l e post.
     history (snd (Play (start 7 payment quietStore ''run'' 0 clock))) = pre @ Append l e # post \<and>
     Log_Type l = LogTypeSagaAbort \<and>
     StepNumber l = Some (length (resultsOf pre)) \<and>
     resultsOf post = [] \<and>
     (\<forall>x\<in>set (logsOf pre). fst x \<noteq> LogTypeSagaAbort \<and> fst x \<noteq> LogTypeSagaStepCompensate) \<and>
     (\<forall>x\<in>set (logsOf post). fst x \<noteq> LogTypeSagaAbort)"
  by (rule abort_logged_once) (simp add: run_defs example_defs)

text \<open>
  C9.  Play never writes the saga it was constructed with: whatever the run does
  (return or panic), the saga the coordinator holds afterwards, with its name, its
  steps and their functions and compensations, is the one it held before.
\<close>

theorem Play_leaves_saga: "saga (coord (snd (Play m))) = saga (coord m)"
  by (rule static_saga [OF keepsD [OF keeps_Play]])

text \<open>
  C10.  The compensation of step \<open>k\<close> is no function, or its first parameter is not the
  context, while the action of step \<open>k\<close> is well shaped and returns (with a nil error or
  not): Play panics with the configuration error.  The action of step \<open>k\<close> was invoked and
  its invocation is the last thing the run did; its error was not looked at (no error is
  recorded, no abort is logged); no compensation was invoked.  In the witness every
  action succeeds.
\<close>

theorem malformed_compensation_is_fatal:
  assumes "storeOK st"
    and "k < length (steps sg)"
    and "\<forall>j<k. stepOK cx (steps sg ! j)"
    and "wellFormed (Func (steps sg ! k))"
    and "returnsWhere (Func (steps sg ! k)) [CtxV cx] (\<lambda>r. True)"
    and "\<not> isFunc (CompensateFunc (steps sg ! k)) \<or>
         firstParam (CompensateFunc (steps sg ! k)) \<noteq> Some ContextT"
  shows "fst (Play (start cx sg st eid w clk)) = Inl (configError (CompensateFunc (steps sg ! k))) \<and>
         callsOf (history (snd (Play (start cx sg st eid w clk)))) = actionCalls cx sg (Suc k) \<and>
         logsOf (history (snd (Play (start cx sg st eid w clk)))) =
           (LogTypeStartSaga, None, None) # stepLogs LogTypeSagaStepExec sg [0..<Suc k] \<and>
         (\<exists>r. last (history (snd (Play (start cx sg st eid w clk)))) =
                Invoke (Action k) (Func (steps sg ! k)) [CtxV cx] (Inr r)) \<and>
         err (coord (snd (Play (start cx sg st eid w clk)))) = None"
proof -
  let ?p = "configError (CompensateFunc (steps sg ! k))"
  from Play_reaches [OF assms(1-3), of eid clk w]
  obtain m where m: "static m = (sg, st, cx, eid, clk)" "forward sg cx k m"
    and p: "\<And>p. fst (execStep k m) = Inl p \<Longrightarrow>
                Play (start cx sg st eid w clk) = (Inl p, snd (execStep k m))"
    by blast
  from execStep_badCompensation [OF m assms(1,2,4,5) getFuncValue_malformed [OF assms(6)]]
  obtain l w' r where e: "execStep k m = (Inl ?p, m\<lparr>world := w', history := history m @
              [Append l None, Invoke (Action k) (Func (steps sg ! k)) [CtxV cx] (Inr r)]\<rparr>)"
    and l: "(Log_Type l, StepNumber l, StepName l) =
             (LogTypeSagaStepExec, Some k, Some (Step_Name (steps sg ! k)))"
    by blast
  from p [of ?p] e
  have "Play (start cx sg st eid w clk) = (Inl ?p, m\<lparr>world := w', history := history m @
              [Append l None, Invoke (Action k) (Func (steps sg ! k)) [CtxV cx] (Inr r)]\<rparr>)"
    by simp
  with m(2) l show ?thesis
    by (simp add: forward_def logsOf_append callsOf_append stepLogs_def actionCalls_def)
qed

theorem malformed_compensation_is_fatal_witness:
  "fst (Play (start 7 unfinished quietStore ''run'' 0 clock)) =
     Inl (configError (CompensateFunc (steps unfinished ! 1))) \<and>
   callsOf (history (snd (Play (start 7 unfinished quietStore ''run'' 0 clock)))) =
     actionCalls 7 unfinished (Suc 1) \<and>
   logsOf (history (snd (Play (start 7 unfinished quietStore ''run'' 0 clock)))) =
     (LogTypeStartSaga, None, None) # stepLogs LogTypeSagaStepExec unfinished [0..<Suc 1] \<and>
   (\<exists>r. last (history (snd (Play (start 7 unfinished quietStore ''run'' 0 clock)))) =
          Invoke (Action 1) (Func (steps unfinished ! 1)) [CtxV 7] (Inr r)) \<and>
   err (coord (snd (Play (start 7 unfinished quietStore ''run'' 0 clock)))) = None"
  by (rule malformed_compensation_is_fatal)
     (simp_all add: condition_defs example_defs shape_defs)

end
